theory Spec2Isabelle
  imports Complex_Main
begin

section \<open>JavaScript numbers and strings as used by \<open>app.js\<close>\<close>

text \<open>
  A JavaScript number is modelled by its exact value: a rational, one of the two
  infinities, or \<open>NaN\<close>. Rounding to 64-bit doubles and the sign of zero are not
  modelled. A string is a list of 8-bit characters; case folding is the ASCII one.
\<close>

datatype jsnum = NaN | Num rat | PInf | NInf

fun truthy :: "jsnum \<Rightarrow> bool" where
  "truthy NaN = False"
| "truthy (Num r) = (r \<noteq> 0)"
| "truthy PInf = True"
| "truthy NInf = True"

text \<open>\<open>x || d\<close> for a property \<open>x\<close> that is a number or \<open>undefined\<close> (\<open>None\<close>).\<close>

definition orElse :: "jsnum option \<Rightarrow> jsnum \<Rightarrow> jsnum" where
  "orElse x d = (case x of None \<Rightarrow> d | Some v \<Rightarrow> if truthy v then v else d)"

fun js_lt :: "jsnum \<Rightarrow> jsnum \<Rightarrow> bool" where
  "js_lt NaN _ = False"
| "js_lt _ NaN = False"
| "js_lt (Num a) (Num b) = (a < b)"
| "js_lt (Num a) PInf = True"
| "js_lt (Num a) NInf = False"
| "js_lt PInf _ = False"
| "js_lt NInf NInf = False"
| "js_lt NInf _ = True"

text \<open>Strict equality \<open>===\<close> on numbers: \<open>NaN\<close> equals nothing.\<close>

definition js_eq :: "jsnum \<Rightarrow> jsnum \<Rightarrow> bool" where
  "js_eq a b = (a \<noteq> NaN \<and> a = b)"

definition js_le :: "jsnum \<Rightarrow> jsnum \<Rightarrow> bool" where
  "js_le a b = (js_lt a b \<or> js_eq a b)"

fun js_sgn :: "jsnum \<Rightarrow> rat" where
  "js_sgn NaN = 0"
| "js_sgn (Num a) = sgn a"
| "js_sgn PInf = 1"
| "js_sgn NInf = - 1"

definition js_inf :: "rat \<Rightarrow> jsnum" where
  "js_inf s = (if 0 < s then PInf else if s < 0 then NInf else NaN)"

fun js_mul :: "jsnum \<Rightarrow> jsnum \<Rightarrow> jsnum" where
  "js_mul NaN _ = NaN"
| "js_mul _ NaN = NaN"
| "js_mul (Num a) (Num b) = Num (a * b)"
| "js_mul a b = js_inf (js_sgn a * js_sgn b)"

fun js_sub :: "jsnum \<Rightarrow> jsnum \<Rightarrow> jsnum" where
  "js_sub NaN _ = NaN"
| "js_sub _ NaN = NaN"
| "js_sub (Num a) (Num b) = Num (a - b)"
| "js_sub (Num a) PInf = NInf"
| "js_sub (Num a) NInf = PInf"
| "js_sub PInf PInf = NaN"
| "js_sub PInf _ = PInf"
| "js_sub NInf NInf = NaN"
| "js_sub NInf _ = NInf"

text \<open>\<open>Math.max\<close> and \<open>Math.min\<close> of two arguments: \<open>NaN\<close> if either is.\<close>

definition Math_max :: "jsnum \<Rightarrow> jsnum \<Rightarrow> jsnum" where
  "Math_max a b = (if a = NaN \<or> b = NaN then NaN else if js_lt a b then b else a)"

definition Math_min :: "jsnum \<Rightarrow> jsnum \<Rightarrow> jsnum" where
  "Math_min a b = (if a = NaN \<or> b = NaN then NaN else if js_lt b a then b else a)"

definition toLowerChar :: "char \<Rightarrow> char" where
  "toLowerChar c =
     (case map_of (zip ''ABCDEFGHIJKLMNOPQRSTUVWXYZ'' ''abcdefghijklmnopqrstuvwxyz'') c of
        Some l \<Rightarrow> l
      | None \<Rightarrow> c)"

definition toLowerCase :: "string \<Rightarrow> string" where
  "toLowerCase s = map toLowerChar s"

definition startsWith :: "string \<Rightarrow> string \<Rightarrow> bool" where
  "startsWith s p = (take (length p) s = p)"

text \<open>\<open>s.includes(sub)\<close>: \<open>sub\<close> occurs in \<open>s\<close> as a contiguous run.\<close>

fun str_includes :: "string \<Rightarrow> string \<Rightarrow> bool" where
  "str_includes [] sub = (sub = [])"
| "str_includes (c # cs) sub = (startsWith (c # cs) sub \<or> str_includes cs sub)"

definition isDigit :: "char \<Rightarrow> bool" where
  "isDigit c = (c \<in> set ''0123456789'')"

definition digitVal :: "char \<Rightarrow> nat" where
  "digitVal c = of_char c - 48"

definition digits :: "string \<Rightarrow> nat" where
  "digits s = foldl (\<lambda>acc c. 10 * acc + digitVal c) 0 s"

text \<open>
  \<open>Number(s)\<close> on the strings the two regular expressions of \<open>parseToken\<close> capture,
  \<open>\d+\<close> and \<open>\d+\.\d+\<close>. No other string reaches it; the model gives \<open>NaN\<close> there.
\<close>

definition Number :: "string \<Rightarrow> jsnum" where
  "Number s =
     (let i = takeWhile isDigit s; r = dropWhile isDigit s in
      if i = [] then NaN
      else if r = [] then Num (of_nat (digits i))
      else if hd r = CHR ''.'' \<and> tl r \<noteq> [] \<and> list_all isDigit (tl r)
        then Num (of_nat (digits i) + of_nat (digits (tl r)) / 10 ^ length (tl r))
      else NaN)"

section \<open>The catalog item\<close>

text \<open>
  The object pushed onto \<open>items\<close> by both scanners. \<open>url\<close>, \<open>duration\<close> and
  \<open>thumb\<close> are the properties that may be missing (\<open>None\<close> is \<open>undefined\<close>);
  \<open>file_handle\<close> stands for the \<open>file\<close> property, the opaque handle of the \<open>File\<close>.
\<close>

record item =
  item_id :: nat
  name :: string
  path :: string
  size_bytes :: nat
  mtime :: nat
  mime_type :: string
  file_handle :: nat
  url :: "nat option"
  duration :: "jsnum option"
  thumb :: "string option"
  tags :: "string list"

section \<open>Filter parser\<close>

text \<open>\<open>cmp(a, op, b)\<close>: the chain of conditionals, \<open><=\<close> being the last resort.\<close>

definition cmp :: "jsnum \<Rightarrow> string \<Rightarrow> jsnum \<Rightarrow> bool" where
  "cmp a op b =
     (if op = ''<'' then js_lt a b
      else if op = ''>'' then js_lt b a
      else if op = ''='' then js_eq a b
      else if op = ''>='' then js_le b a
      else js_le a b)"

text \<open>
  The regular expressions are matched from the left, anchored at both ends, ignoring
  case (flag \<open>i\<close>). \<open>match_lit\<close> matches a literal and returns the rest of the input.
\<close>

fun match_lit :: "string \<Rightarrow> string \<Rightarrow> string option" where
  "match_lit [] s = Some s"
| "match_lit (p # ps) [] = None"
| "match_lit (p # ps) (c # cs) =
     (if toLowerChar c = toLowerChar p then match_lit ps cs else None)"

text \<open>
  The group \<open>(<=|>=|=|<|>)\<close>: the alternatives are tried in the order written, and an
  alternative is kept only if the rest of the pattern (\<open>k\<close>) matches after it.
\<close>

definition op_alternatives :: "string list" where
  "op_alternatives = [''<='', ''>='', ''='', ''<'', ''>'']"

fun match_alt :: "string list \<Rightarrow> string \<Rightarrow> (string \<Rightarrow> 'a option) \<Rightarrow> (string \<times> 'a) option" where
  "match_alt [] s k = None"
| "match_alt (a # as) s k =
     (case match_lit a s of
        None \<Rightarrow> match_alt as s k
      | Some r \<Rightarrow>
          (case k r of
             None \<Rightarrow> match_alt as s k
           | Some x \<Rightarrow> Some (take (length a) s, x)))"

text \<open>\<open>(\d+)$\<close>: the rest of the token is one or more digits.\<close>

definition digits_end :: "string \<Rightarrow> string option" where
  "digits_end r = (if r \<noteq> [] \<and> list_all isDigit r then Some r else None)"

text \<open>
  \<open>(\d+(?:\.\d+)?)(kb|mb|gb|tb)?$\<close>. The greedy choices are the only ones that can
  succeed: a shorter run of digits leaves a digit, which neither \<open>\.\<close>, a unit nor the
  end of the input matches, and skipping a fraction that is there leaves the dot.
\<close>

definition unit_names :: "string list" where
  "unit_names = [''kb'', ''mb'', ''gb'', ''tb'']"

definition number_unit_end :: "string \<Rightarrow> (string \<times> string option) option" where
  "number_unit_end r =
     (let i = takeWhile isDigit r; r1 = dropWhile isDigit r in
      if i = [] then None
      else
        let frac = (r1 \<noteq> [] \<and> hd r1 = CHR ''.'' \<and> takeWhile isDigit (tl r1) \<noteq> []);
            num = (if frac then i @ ''.'' @ takeWhile isDigit (tl r1) else i);
            r2 = (if frac then dropWhile isDigit (tl r1) else r1)
        in if r2 = [] then Some (num, None)
           else if toLowerCase r2 \<in> set unit_names then Some (num, Some r2)
           else None)"

text \<open>\<open>tok.match(/^dur:(<=|>=|=|<|>)(\d+)$/i)\<close>, giving the two groups.\<close>

definition match_dur :: "string \<Rightarrow> (string \<times> string) option" where
  "match_dur tok =
     (case match_lit ''dur:'' tok of
        None \<Rightarrow> None
      | Some r \<Rightarrow> match_alt op_alternatives r digits_end)"

text \<open>\<open>tok.match(/^size:(<=|>=|=|<|>)(\d+(?:\.\d+)?)(kb|mb|gb|tb)?$/i)\<close>.\<close>

definition match_size :: "string \<Rightarrow> (string \<times> string \<times> string option) option" where
  "match_size tok =
     (case match_lit ''size:'' tok of
        None \<Rightarrow> None
      | Some r \<Rightarrow> match_alt op_alternatives r number_unit_end)"

definition unit_mul :: "string \<Rightarrow> jsnum" where
  "unit_mul unit =
     (if unit = ''kb'' then Num 1024
      else if unit = ''mb'' then Num (1024 ^ 2)
      else if unit = ''gb'' then Num (1024 ^ 3)
      else if unit = ''tb'' then Num (1024 ^ 4)
      else Num 1)"

text \<open>The three kinds of predicate \<open>parseToken\<close> returns besides the default.\<close>

definition tag_filter :: "string \<Rightarrow> item \<Rightarrow> bool" where
  "tag_filter want it = list_ex (\<lambda>t. str_includes (toLowerCase t) want) (tags it)"

definition dur_filter :: "string \<Rightarrow> jsnum \<Rightarrow> item \<Rightarrow> bool" where
  "dur_filter op val it = cmp (orElse (duration it) (Num 0)) op val"

definition size_filter :: "string \<Rightarrow> jsnum \<Rightarrow> item \<Rightarrow> bool" where
  "size_filter op val it = cmp (orElse (Some (Num (of_nat (size_bytes it)))) (Num 0)) op val"

definition substring_filter :: "string \<Rightarrow> item \<Rightarrow> bool" where
  "substring_filter s it =
     (str_includes (toLowerCase (name it)) s \<or> str_includes (toLowerCase (path it)) s)"

definition parseToken :: "string \<Rightarrow> item \<Rightarrow> bool" where
  "parseToken tok =
     (if startsWith tok ''#'' then tag_filter (toLowerCase (drop 1 tok))
      else case match_dur tok of
        Some (op, n) \<Rightarrow> dur_filter op (Number n)
      | None \<Rightarrow>
          (case match_size tok of
             Some (op, num, unitRaw) \<Rightarrow>
               (let unit = toLowerCase (case unitRaw of None \<Rightarrow> ''b'' | Some u \<Rightarrow> u);
                    val = js_mul (Number num) (unit_mul unit)
                in size_filter op val)
           | None \<Rightarrow> substring_filter (toLowerCase tok)))"

subsection \<open>The token grammar, read off the two regular expressions\<close>







section \<open>Tags\<close>

text \<open>
  A JavaScript \<open>Set\<close> keeps its elements in insertion order and ignores an element it
  already has; \<open>Array.from(new Set(xs))\<close> adds the elements of \<open>xs\<close> from the left.
\<close>

definition Set_add :: "'a list \<Rightarrow> 'a \<Rightarrow> 'a list" where
  "Set_add s x = (if x \<in> set s then s else s @ [x])"

definition Array_from_Set :: "'a list \<Rightarrow> 'a list" where
  "Array_from_Set xs = foldl Set_add [] xs"

text \<open>
  \<open>item.tags || []\<close> is \<open>item.tags\<close>: every item is created with an array of tags, and
  an array is truthy, also when empty.
\<close>

definition addTag :: "item \<Rightarrow> string \<Rightarrow> item" where
  "addTag it t = it\<lparr>tags := Array_from_Set (tags it @ [t])\<rparr>"

text \<open>
  The click handler that \<open>tagChip(t, item)\<close> installs; \<open>persist\<close> and \<open>render\<close>,
  which it calls next, leave the item as it is.
\<close>

definition tagChip_click :: "string \<Rightarrow> item \<Rightarrow> item" where
  "tagChip_click t it = it\<lparr>tags := filter (\<lambda>x. x \<noteq> t) (tags it)\<rparr>"

section \<open>Rendering\<close>

text \<open>
  \<open>render\<close> builds a second array and sorts it in place, so arrays are objects in a
  store: \<open>arrays\<close> maps an address (the position in the list) to the elements of the
  array at that address, which are references into \<open>objects\<close>, the item objects.
  \<open>items_ref\<close> is the value of the variable \<open>items\<close>. The cards in the grid are
  represented by the references of the items they show.
\<close>

record page =
  arrays :: "nat list list"
  objects :: "item list"
  items_ref :: nat
  search_value :: string
  sort_value :: string
  grid :: "nat list"
  count_text :: nat

text \<open>White space, as far as it is in ASCII: space, tab, line feed and the like.\<close>

definition isSpace :: "char \<Rightarrow> bool" where
  "isSpace c = (c \<in> set [CHR '' '', CHR 0x09, CHR 0x0A, CHR 0x0B, CHR 0x0C, CHR 0x0D])"

definition trim :: "string \<Rightarrow> string" where
  "trim s = rev (dropWhile isSpace (rev (dropWhile isSpace s)))"

text \<open>
  \<open>s.split(/\s+/)\<close>: \<open>cur\<close> is the piece being read, reversed; \<open>sep\<close> says that the
  last character read was white space.
\<close>

fun split_ws :: "string \<Rightarrow> bool \<Rightarrow> string \<Rightarrow> string list" where
  "split_ws cur sep [] = [rev cur]"
| "split_ws cur sep (c # cs) =
     (if isSpace c then (if sep then split_ws cur True cs else rev cur # split_ws [] True cs)
      else split_ws (c # cur) False cs)"

definition endsWith :: "string \<Rightarrow> string \<Rightarrow> bool" where
  "endsWith s p = (length p \<le> length s \<and> drop (length s - length p) s = p)"

text \<open>
  The comparator handed to \<open>out.sort\<close>. \<open>localeCompare\<close> depends on the locale of the
  browser and is a parameter. A key that is none of the four gives \<open>undefined\<close>, and
  \<open>undefined * dir\<close> is \<open>NaN\<close>.
\<close>

definition sort_comparator :: "(string \<Rightarrow> string \<Rightarrow> jsnum) \<Rightarrow> string \<Rightarrow> item \<Rightarrow> item \<Rightarrow> jsnum" where
  "sort_comparator localeCompare sortv a b =
     (let dir = (if endsWith sortv ''desc'' then Num (- 1) else Num 1);
          key = takeWhile (\<lambda>c. c \<noteq> CHR ''-'') sortv;
          K = (if key = ''name'' then localeCompare (name a) (name b)
               else if key = ''date'' then
                 js_sub (orElse (Some (Num (of_nat (mtime a)))) (Num 0))
                        (orElse (Some (Num (of_nat (mtime b)))) (Num 0))
               else if key = ''size'' then
                 js_sub (orElse (Some (Num (of_nat (size_bytes a)))) (Num 0))
                        (orElse (Some (Num (of_nat (size_bytes b)))) (Num 0))
               else if key = ''dur'' then
                 js_sub (orElse (duration a) (Num 0)) (orElse (duration b) (Num 0))
               else NaN)
      in js_mul K dir)"

text \<open>
  \<open>Array.prototype.sort\<close> is stable; a comparator result that is positive puts the
  second argument first, and zero or \<open>NaN\<close> keeps the order. The model is the stable
  insertion sort.
\<close>

fun insert_by :: "('a \<Rightarrow> 'a \<Rightarrow> jsnum) \<Rightarrow> 'a \<Rightarrow> 'a list \<Rightarrow> 'a list" where
  "insert_by c x [] = [x]"
| "insert_by c x (y # ys) = (if js_lt (Num 0) (c x y) then y # insert_by c x ys else x # y # ys)"

definition sort_by :: "('a \<Rightarrow> 'a \<Rightarrow> jsnum) \<Rightarrow> 'a list \<Rightarrow> 'a list" where
  "sort_by c xs = foldr (insert_by c) xs []"

text \<open>\<open>a.filter(pred)\<close> allocates the array it returns; \<open>a.sort(c)\<close> overwrites \<open>a\<close>.\<close>

definition Array_filter :: "nat \<Rightarrow> (item \<Rightarrow> bool) \<Rightarrow> page \<Rightarrow> nat \<times> page" where
  "Array_filter a pred p =
     (length (arrays p),
      p\<lparr>arrays := arrays p @ [filter (\<lambda>r. pred (objects p ! r)) (arrays p ! a)]\<rparr>)"

definition Array_sort :: "nat \<Rightarrow> (item \<Rightarrow> item \<Rightarrow> jsnum) \<Rightarrow> page \<Rightarrow> page" where
  "Array_sort a c p =
     p\<lparr>arrays := (arrays p)[a := sort_by (\<lambda>x y. c (objects p ! x) (objects p ! y)) (arrays p ! a)]\<rparr>"

definition render :: "(string \<Rightarrow> string \<Rightarrow> jsnum) \<Rightarrow> page \<Rightarrow> page" where
  "render localeCompare p =
     (let query = trim (search_value p);
          tokens = (if query \<noteq> [] then split_ws [] False query else []);
          filters = map parseToken tokens;
          (out, p1) = Array_filter (items_ref p) (\<lambda>it. list_all (\<lambda>f. f it) filters) p;
          p2 = Array_sort out (sort_comparator localeCompare (sort_value p1)) p1
      in p2\<lparr>grid := arrays p2 ! out, count_text := length (arrays p2 ! out)\<rparr>)"

section \<open>Scanning and enrichment\<close>

text \<open>A \<open>File\<close> of the directory input, with the properties the scanner reads.\<close>

record jsfile =
  file_name :: string
  webkitRelativePath :: string
  file_size :: nat
  lastModified :: nat
  file_type :: string
  file_ref :: nat

text \<open>
  The text of the loading element, as \<open>showLoading\<close> and \<open>updateLoading\<close> set it:
  \<open>Scanning...\<close> or \<open>Processing done/total\<close>.
\<close>

datatype loading_text = Scanning | Processing nat nat

text \<open>
  One of the three \<open>async\<close> workers of \<open>enrichAll\<close>: about to test the loop
  condition, suspended at \<open>await enrichOne(me)\<close> (with the number of that call), or
  past the loop.
\<close>

datatype worker = AtLoop | Awaiting nat | Exited

text \<open>
  The closure of one call of \<open>enrichOne\<close>: the item (its position in \<open>items\<close>), the
  flag \<open>done\<close>, and the position the handler of \<open>loadedmetadata\<close> asked the video to
  seek to. \<open>cleanups\<close>, \<open>removed\<close> and \<open>resolved\<close> count how often the call has
  run \<open>cleanupItem(item)\<close>, \<open>v.remove()\<close> and \<open>resolve()\<close>.
\<close>

record call =
  call_item :: nat
  call_done :: bool
  currentTime :: "jsnum option"
  cleanups :: nat
  removed :: nat
  resolved :: nat

text \<open>
  The variables of the module (\<open>items\<close>, \<open>objectURLs\<close>, \<open>db\<close>), the locals of the
  running \<open>enrichAll\<close> (\<open>total\<close>, \<open>done\<close>, \<open>idx\<close>, the workers, the calls of
  \<open>enrichOne\<close> in the order they were made), and what the browser keeps: the next
  object URL and identifier it will hand out, the URLs passed to
  \<open>URL.revokeObjectURL\<close> and the texts shown in the loading element, both in order,
  and the URLs of the player dialogs of \<open>openPlayer\<close> that are open.
  \<open>objectURLs\<close> is a \<open>Set\<close>: a list without duplicates, in insertion order.
\<close>

record state =
  items :: "item list"
  objectURLs :: "nat list"
  db :: "string \<Rightarrow> string list option"
  total :: nat
  done_count :: nat
  idx :: nat
  workers :: "worker list"
  calls :: "call list"
  next_url :: nat
  next_id :: nat
  revoked :: "nat list"
  loading :: "loading_text list"
  players :: "nat list"

definition trackObjectURL :: "nat \<Rightarrow> state \<Rightarrow> state" where
  "trackObjectURL u s = s\<lparr>objectURLs := Set_add (objectURLs s) u\<rparr>"

definition revokeTrackedURL :: "nat option \<Rightarrow> state \<Rightarrow> state" where
  "revokeTrackedURL uo s =
     (case uo of
        None \<Rightarrow> s
      | Some u \<Rightarrow> s\<lparr>revoked := revoked s @ [u], objectURLs := filter (\<lambda>x. x \<noteq> u) (objectURLs s)\<rparr>)"

text \<open>\<open>cleanupItem(item)\<close>, the item given by its position in \<open>items\<close>.\<close>

definition cleanupItem :: "nat \<Rightarrow> state \<Rightarrow> state" where
  "cleanupItem i s =
     (case url (items s ! i) of
        None \<Rightarrow> s
      | Some u \<Rightarrow>
          (let s1 = revokeTrackedURL (Some u) s
           in s1\<lparr>items := (items s1)[i := (items s1 ! i)\<lparr>url := None\<rparr>]\<rparr>))"

definition revokeAllObjectURLs :: "state \<Rightarrow> state" where
  "revokeAllObjectURLs s =
     (let s1 = foldl (\<lambda>t i. cleanupItem i t) s [0..<length (items s)]
      in s1\<lparr>revoked := revoked s1 @ objectURLs s1, objectURLs := []\<rparr>)"

definition VIDEO_EXT_test :: "string \<Rightarrow> bool" where
  "VIDEO_EXT_test n =
     list_ex (endsWith (toLowerCase n)) [''.mp4'', ''.mkv'', ''.mov'', ''.webm'', ''.avi'', ''.m4v'']"

text \<open>The body of the loop of \<open>scanWithDirectoryInput\<close> for one file.\<close>

definition push_file :: "state \<Rightarrow> jsfile \<Rightarrow> state" where
  "push_file s f =
     (if \<not> VIDEO_EXT_test (file_name f) then s
      else
        let p = (if webkitRelativePath f \<noteq> [] then webkitRelativePath f else file_name f);
            u = next_url s;
            s1 = trackObjectURL u (s\<lparr>next_url := u + 1\<rparr>)
        in s1\<lparr>next_id := next_id s1 + 1,
               items := items s1 @
                 [\<lparr>item_id = next_id s1, name = file_name f, path = p, size_bytes = file_size f,
                   mtime = lastModified f,
                   mime_type = (if file_type f \<noteq> [] then file_type f else ''video/*''),
                   file_handle = file_ref f, url = Some u, duration = None, thumb = None,
                   tags = (case db s1 p of None \<Rightarrow> [] | Some ts \<Rightarrow> ts)\<rparr>]\<rparr>)"

text \<open>\<open>scanWithDirectoryInput\<close> from the chosen files up to the call of \<open>enrichAll\<close>.\<close>

definition scan_files :: "jsfile list \<Rightarrow> state \<Rightarrow> state" where
  "scan_files fs s =
     (let s1 = revokeAllObjectURLs s;
          s2 = s1\<lparr>loading := loading s1 @ [Scanning], items := []\<rparr>;
          s3 = foldl push_file s2 fs
      in s3\<lparr>loading := loading s3 @ [Processing 0 (length (items s3))]\<rparr>)"

definition concurrency :: nat where
  "concurrency = 3"

text \<open>\<open>enrichAll\<close> up to the creation of the workers, none of which has run yet.\<close>

definition enrichAll_start :: "state \<Rightarrow> state" where
  "enrichAll_start s =
     s\<lparr>total := length (items s), done_count := 0, idx := 0,
       workers := replicate concurrency AtLoop, calls := []\<rparr>"

text \<open>\<open>finalize\<close> of the call number \<open>k\<close>.\<close>

definition finalize :: "nat \<Rightarrow> state \<Rightarrow> state" where
  "finalize k s =
     (let c = calls s ! k in
      if \<not> call_done c then
        (let s1 = cleanupItem (call_item c) (s\<lparr>calls := (calls s)[k := c\<lparr>call_done := True\<rparr>]\<rparr>)
         in s1\<lparr>calls := (calls s1)[k := (calls s1 ! k)
               \<lparr>cleanups := cleanups c + 1, removed := removed c + 1, resolved := resolved c + 1\<rparr>]\<rparr>)
      else s)"

text \<open>
  The seek position computed by the handler of \<open>loadedmetadata\<close> from \<open>v.duration\<close>.
\<close>

definition seek_target :: "jsnum \<Rightarrow> jsnum" where
  "seek_target d =
     Math_min (Math_max (Num (1 / 10)) (js_mul (orElse (Some d) (Num 1)) (Num (1 / 10)))) (Num 1)"

definition on_loadedmetadata :: "nat \<Rightarrow> jsnum \<Rightarrow> state \<Rightarrow> state" where
  "on_loadedmetadata k d s =
     (let c = calls s ! k; i = call_item c; it = items s ! i
      in s\<lparr>items := (items s)[i := it\<lparr>duration := (if truthy d then Some d else duration it)\<rparr>],
           calls := (calls s)[k := c\<lparr>currentTime := Some (seek_target d)\<rparr>]\<rparr>)"

text \<open>
  The handler of \<open>seeked\<close>; \<open>data\<close> is the data URL of the captured frame, or
  \<open>None\<close> when the capture throws and the handler goes on to \<open>finalize\<close> without one.
\<close>

definition on_seeked :: "nat \<Rightarrow> string option \<Rightarrow> state \<Rightarrow> state" where
  "on_seeked k data s =
     (let i = call_item (calls s ! k);
          s1 = (case data of
                  None \<Rightarrow> s
                | Some t \<Rightarrow> s\<lparr>items := (items s)[i := (items s ! i)\<lparr>thumb := Some t\<rparr>]\<rparr>)
      in finalize k s1)"

text \<open>
  What can happen next while \<open>enrichAll\<close> runs. A worker runs from one \<open>await\<close> to the
  next without interruption: \<open>Loop w\<close> is worker \<open>w\<close> testing the loop condition and
  either claiming \<open>items[idx++]\<close> and calling \<open>enrichOne\<close>, or leaving the loop;
  \<open>Resume w\<close> is worker \<open>w\<close> continuing after the promise it awaits has resolved. The
  others are the events of the call \<open>k\<close> of \<open>enrichOne\<close>: \<open>loadedmetadata\<close> with the
  value of \<open>v.duration\<close>, \<open>seeked\<close>, \<open>error\<close>, and the end of \<open>sleep(4000)\<close>. The
  browser fires \<open>seeked\<close> only after a seek has been asked for. The listeners are
  registered with \<open>once: true\<close>; here an event may come any number of times, which
  allows every course the browser allows and more.

  The page stays live while the workers are suspended. \<open>OpenPlayer f\<close> is a click on
  the thumbnail of a card, which calls \<open>openPlayer(item)\<close> for an item whose file is
  \<open>f\<close>; the cards are those of the last \<open>render\<close>, which the search box runs on
  every input. \<open>ClosePlayer u\<close> is the \<open>cleanup\<close> of the dialog whose video plays
  the URL \<open>u\<close>.
\<close>

datatype action =
    Loop nat
  | Resume nat
  | LoadedMetadata nat jsnum
  | Seeked nat "string option"
  | Error nat
  | Timeout nat
  | OpenPlayer nat
  | ClosePlayer nat

text \<open>The state after an action, or \<open>None\<close> if the action cannot happen in the state.\<close>

fun step :: "action \<Rightarrow> state \<Rightarrow> state option" where
  "step (Loop w) s =
     (if w < length (workers s) \<and> workers s ! w = AtLoop then
        (if idx s < length (items s) then
           Some (s\<lparr>idx := idx s + 1,
                  calls := calls s @
                    [\<lparr>call_item = idx s, call_done = False, currentTime = None,
                      cleanups = 0, removed = 0, resolved = 0\<rparr>],
                  workers := (workers s)[w := Awaiting (length (calls s))]\<rparr>)
         else Some (s\<lparr>workers := (workers s)[w := Exited]\<rparr>))
      else None)"
| "step (Resume w) s =
     (if w < length (workers s) then
        (case workers s ! w of
           Awaiting k \<Rightarrow>
             (if k < length (calls s) \<and> 0 < resolved (calls s ! k) then
                Some (s\<lparr>done_count := done_count s + 1,
                       loading := loading s @ [Processing (done_count s + 1) (total s)],
                       workers := (workers s)[w := AtLoop]\<rparr>)
              else None)
         | _ \<Rightarrow> None)
      else None)"
| "step (LoadedMetadata k d) s =
     (if k < length (calls s) then Some (on_loadedmetadata k d s) else None)"
| "step (Seeked k data) s =
     (if k < length (calls s) \<and> currentTime (calls s ! k) \<noteq> None
      then Some (on_seeked k data s) else None)"
| "step (Error k) s = (if k < length (calls s) then Some (finalize k s) else None)"
| "step (Timeout k) s = (if k < length (calls s) then Some (finalize k s) else None)"
| "step (OpenPlayer f) s =
     (let u = next_url s; s1 = trackObjectURL u (s\<lparr>next_url := u + 1\<rparr>)
      in Some (s1\<lparr>players := players s1 @ [u]\<rparr>))"
| "step (ClosePlayer u) s =
     (if u \<in> set (players s)
      then Some ((revokeTrackedURL (Some u) s)\<lparr>players := removeAll u (players s)\<rparr>)
      else None)"

fun run :: "action list \<Rightarrow> state \<Rightarrow> state option" where
  "run [] s = Some s"
| "run (a # as) s = (case step a s of None \<Rightarrow> None | Some s' \<Rightarrow> run as s')"

text \<open>\<open>Promise.all(work)\<close> has resolved: every worker is past its loop.\<close>

definition all_exited :: "state \<Rightarrow> bool" where
  "all_exited s = list_all (\<lambda>w. w = Exited) (workers s)"

text \<open>An action that calls \<open>finalize\<close> of the call \<open>k\<close>.\<close>

fun triggers :: "nat \<Rightarrow> action \<Rightarrow> bool" where
  "triggers k (Seeked j data) = (j = k)"
| "triggers k (Error j) = (j = k)"
| "triggers k (Timeout j) = (j = k)"
| "triggers k _ = False"

text \<open>\<open>clamp(x, lo, hi)\<close> as the specification writes it.\<close>

definition clamp :: "jsnum \<Rightarrow> jsnum \<Rightarrow> jsnum \<Rightarrow> jsnum" where
  "clamp x lo hi = (if js_lt x lo then lo else if js_lt hi x then hi else x)"

subsection \<open>What holds while \<open>enrichAll\<close> runs\<close>

fun is_awaiting :: "worker \<Rightarrow> bool" where
  "is_awaiting (Awaiting k) = True"
| "is_awaiting _ = False"

text \<open>
  The cursor has not passed the end; the calls of \<open>enrichOne\<close> made so far are those
  for the items before the cursor, in order; a call has run its cleanup, removed its
  video and resolved once if its flag is set and not at all otherwise; a suspended worker
  awaits a call that was made; every item before the cursor is counted as done or is
  being awaited; a worker leaves only when the cursor is at the end; a call nobody awaits
  is done.
\<close>

definition sched_inv :: "state \<Rightarrow> bool" where
  "sched_inv s \<longleftrightarrow>
     idx s \<le> length (items s) \<and> total s = length (items s)
     \<and> length (calls s) = idx s
     \<and> (\<forall>k<length (calls s). call_item (calls s ! k) = k)
     \<and> (\<forall>k<length (calls s).
           cleanups (calls s ! k) = (if call_done (calls s ! k) then 1 else 0)
           \<and> removed (calls s ! k) = (if call_done (calls s ! k) then 1 else 0)
           \<and> resolved (calls s ! k) = (if call_done (calls s ! k) then 1 else 0))
     \<and> (\<forall>k. Awaiting k \<in> set (workers s) \<longrightarrow> k < length (calls s))
     \<and> done_count s + length (filter is_awaiting (workers s)) = idx s
     \<and> (Exited \<in> set (workers s) \<longrightarrow> idx s = length (items s))
     \<and> (\<forall>k<length (calls s). call_done (calls s ! k) \<or> Awaiting k \<in> set (workers s))"

text \<open>
  How much of the pass is left: items not yet claimed, workers suspended, calls not yet
  finalized, and workers about to test the loop condition.
\<close>

definition pending :: "state \<Rightarrow> nat" where
  "pending s =
     4 * (length (items s) - idx s) + 2 * length (filter is_awaiting (workers s))
     + length (filter (\<lambda>c. \<not> call_done c) (calls s))
     + length (filter (\<lambda>w. w = AtLoop) (workers s))"

text \<open>
  Every tracked URL is the URL of an item or of an open player, and the item of a call
  whose flag is set has no URL any more.
\<close>

definition reg_inv :: "state \<Rightarrow> bool" where
  "reg_inv s \<longleftrightarrow>
     set (objectURLs s)
       \<subseteq> {u. \<exists>i<length (items s). url (items s ! i) = Some u} \<union> set (players s)
     \<and> (\<forall>k<length (calls s). call_done (calls s ! k) \<longrightarrow> url (items s ! k) = None)"

text \<open>
  What has become of the URL \<open>u\<close> that item \<open>k\<close> had when the pass started in \<open>S\<close>:
  an item keeps the URL it had until its call is finalized and has none afterwards;
  \<open>u\<close> has been revoked once more than before the pass if the call of item \<open>k\<close> is
  finalized and no more often than before otherwise; it is tracked if it was and the
  call is not finalized; and it is not the URL of a player.
\<close>

definition url_inv :: "state \<Rightarrow> nat \<Rightarrow> nat \<Rightarrow> state \<Rightarrow> bool" where
  "url_inv S k u s \<longleftrightarrow>
     length (items s) = length (items S)
     \<and> (\<forall>i<length (items S).
           url (items s ! i)
             = (if i < length (calls s) \<and> call_done (calls s ! i) then None else url (items S ! i)))
     \<and> count_list (revoked s) u
           = count_list (revoked S) u + (if k < length (calls s) \<and> call_done (calls s ! k) then 1 else 0)
     \<and> (u \<in> set (objectURLs s)
           \<longleftrightarrow> u \<in> set (objectURLs S) \<and> \<not> (k < length (calls s) \<and> call_done (calls s ! k)))
     \<and> u < next_url s \<and> u \<notin> set (players s)"

text \<open>Every object URL handed out so far is still tracked or has been revoked.\<close>

definition accounted :: "state \<Rightarrow> bool" where
  "accounted s \<longleftrightarrow> (\<forall>u<next_url s. u \<in> set (objectURLs s) \<or> u \<in> set (revoked s))"

text \<open>The state of the module when the page has loaded, \<open>d\<close> being what \<open>loadDB\<close> read.\<close>

definition page_load :: "(string \<Rightarrow> string list option) \<Rightarrow> state" where
  "page_load d =
     \<lparr>items = [], objectURLs = [], db = d, total = 0, done_count = 0, idx = 0, workers = [],
      calls = [], next_url = 0, next_id = 0, revoked = [], loading = [], players = []\<rparr>"

subsection \<open>A sample catalog\<close>

text \<open>
  Five files picked in the directory input, one of which is no video, scanned on a
  freshly loaded page with no stored tags: the state in which \<open>enrichAll\<close> starts.
\<close>

definition sample_file :: "string \<Rightarrow> nat \<Rightarrow> jsfile" where
  "sample_file n sz =
     \<lparr>file_name = n, webkitRelativePath = ''videos/'' @ n, file_size = sz, lastModified = 0,
      file_type = ''video/mp4'', file_ref = sz\<rparr>"

definition sample_files :: "jsfile list" where
  "sample_files =
     [sample_file ''a.mp4'' 10, sample_file ''notes.txt'' 1, sample_file ''b.MKV'' 500,
      sample_file ''c.webm'' 30, sample_file ''d.avi'' 7]"

definition sample_pass :: state where
  "sample_pass = enrichAll_start (scan_files sample_files (page_load (\<lambda>p. None)))"

text \<open>The state once each of the three workers has claimed its first item.\<close>

definition sample_claimed :: state where
  "sample_claimed =
     (case run [Loop 0, Loop 1, Loop 2] sample_pass of Some s \<Rightarrow> s | None \<Rightarrow> sample_pass)"

text \<open>
  One way the pass can go from there: the second call times out; the first loads its
  metadata, seeks and captures a frame, and its timeout comes later; the workers go on to
  the fourth item, which fails to decode; the third call times out; all three workers
  find the cursor at the end.
\<close>

definition sample_schedule :: "action list" where
  "sample_schedule =
     [Loop 0, Loop 1, Loop 2, Timeout 1, LoadedMetadata 0 (Num 20), Seeked 0 (Some ''jpeg''),
      Resume 0, Resume 1, Timeout 0, Loop 1, Loop 0, Error 3, Resume 1, Timeout 2, Timeout 3,
      Resume 2, Loop 2, Loop 1]"

definition sample_done :: state where
  "sample_done =
     (case run sample_schedule sample_pass of Some s \<Rightarrow> s | None \<Rightarrow> sample_pass)"

text \<open>
  The first call has timed out after its metadata had loaded and a seek had been asked
  for; the frame is ready only afterwards.
\<close>

definition late_schedule :: "action list" where
  "late_schedule = [Loop 0, LoadedMetadata 0 (Num 8), Timeout 0]"

definition sample_late :: state where
  "sample_late =
     (case run late_schedule sample_pass of Some s \<Rightarrow> s | None \<Rightarrow> sample_pass)"

text \<open>
  Another way the pass can go: while the three workers wait for their first items, the
  user types in the search box, clicks the thumbnail of the first card and leaves the
  player open; all four calls time out.
\<close>

definition player_schedule :: "action list" where
  "player_schedule =
     [Loop 0, Loop 1, Loop 2, OpenPlayer 10, Timeout 0, Timeout 1, Timeout 2, Resume 0,
      Resume 1, Resume 2, Loop 0, Timeout 3, Resume 0, Loop 0, Loop 1, Loop 2]"

definition player_done :: state where
  "player_done =
     (case run player_schedule sample_pass of Some s \<Rightarrow> s | None \<Rightarrow> sample_pass)"

text \<open>The page showing that catalog, with a query of two tokens and a sort selection.\<close>

definition sample_page :: page where
  "sample_page =
     \<lparr>arrays = [[0, 1, 2, 3]], objects = items sample_pass, items_ref = 0,
      search_value = '' dur:<5  VIDEOS '', sort_value = ''size-desc'', grid = [], count_text = 0\<rparr>"

section \<open>Properties of the filter parser\<close>




lemma toLowerChar_sym [simp]:
  "toLowerChar CHR ''='' = CHR ''=''" "toLowerChar CHR ''<'' = CHR ''<''" "toLowerChar CHR ''>'' = CHR ''>''"
  by (simp_all add: toLowerChar_def)






































section \<open>The claims about the filter parser\<close>


lemma op_alternatives_mem [simp]:
  "''<='' \<in> set op_alternatives" "''>='' \<in> set op_alternatives" "''='' \<in> set op_alternatives"
  "''<'' \<in> set op_alternatives" "''>'' \<in> set op_alternatives"
  by (simp_all add: op_alternatives_def)










section \<open>Adding and removing tags\<close>

lemma set_foldl_Set_add: "set (foldl Set_add acc xs) = set acc \<union> set xs"
  by (induction xs arbitrary: acc) (auto simp: Set_add_def)

lemma distinct_foldl_Set_add: "distinct acc \<Longrightarrow> distinct (foldl Set_add acc xs)"
  by (induction xs arbitrary: acc) (auto simp: Set_add_def)

lemma foldl_Set_add_distinct: "distinct (acc @ xs) \<Longrightarrow> foldl Set_add acc xs = acc @ xs"
proof (induction xs arbitrary: acc)
  case Nil
  then show ?case by simp
next
  case (Cons x xs)
  from Cons.prems have "Set_add acc x = acc @ [x]" by (simp add: Set_add_def)
  moreover from Cons.prems have "distinct ((acc @ [x]) @ xs)" by simp
  ultimately show ?case using Cons.IH[of "acc @ [x]"] by simp
qed

lemma set_Array_from_Set: "set (Array_from_Set xs) = set xs"
  by (simp add: Array_from_Set_def set_foldl_Set_add)

lemma distinct_Array_from_Set: "distinct (Array_from_Set xs)"
  by (simp add: Array_from_Set_def distinct_foldl_Set_add)

lemma Array_from_Set_distinct: "distinct xs \<Longrightarrow> Array_from_Set xs = xs"
  using foldl_Set_add_distinct[of "[]" xs] by (simp add: Array_from_Set_def)

lemma Array_from_Set_snoc: "Array_from_Set (xs @ [x]) = Set_add (Array_from_Set xs) x"
  by (simp add: Array_from_Set_def)

lemma distinct_Set_add: "distinct s \<Longrightarrow> distinct (Set_add s x)"
  by (simp add: Set_add_def)

lemma tags_addTag: "tags (addTag it x) = Set_add (Array_from_Set (tags it)) x"
  by (simp add: addTag_def Array_from_Set_snoc)

lemma filter_absent: "x \<notin> set xs \<Longrightarrow> filter (\<lambda>y. y \<noteq> x) xs = xs"
  by (induction xs) auto

text \<open>
  Claim C5, as amended. Adding a tag that the item does not have and then removing it
  gives back the set of tags the item had, and the very item if its tags held no
  duplicate; if the item already had the tag, the tag is gone afterwards. Adding a tag
  twice is adding it once, and the tags after adding hold no duplicate.
\<close>

theorem tag_add_then_remove:
  "(x \<notin> set (tags it) \<longrightarrow>
      set (tags (tagChip_click x (addTag it x))) = set (tags it)
      \<and> (distinct (tags it) \<longrightarrow> tagChip_click x (addTag it x) = it))
   \<and> set (tags (tagChip_click x (addTag it x))) = set (tags it) - {x}
   \<and> addTag (addTag it x) x = addTag it x
   \<and> distinct (tags (addTag it x))
   \<and> set (tags (addTag it x)) = insert x (set (tags it))"
proof (intro conjI impI)
  have s: "set (tags (tagChip_click x (addTag it x))) = set (tags it) - {x}"
    by (auto simp: tagChip_click_def tags_addTag Set_add_def set_Array_from_Set)
  show "set (tags (tagChip_click x (addTag it x))) = set (tags it) - {x}" by (rule s)
  show "set (tags (tagChip_click x (addTag it x))) = set (tags it)" if "x \<notin> set (tags it)"
    using s that by simp
  show "tagChip_click x (addTag it x) = it" if "x \<notin> set (tags it)" "distinct (tags it)"
  proof -
    have "Array_from_Set (tags it) = tags it" using that(2) by (rule Array_from_Set_distinct)
    then have "filter (\<lambda>y. y \<noteq> x) (Set_add (Array_from_Set (tags it)) x) = tags it"
      using that(1) by (simp add: Set_add_def filter_absent)
    then show ?thesis by (simp add: tagChip_click_def tags_addTag) (simp add: addTag_def)
  qed
  have d: "distinct (tags (addTag it x))"
    by (simp add: tags_addTag distinct_Set_add distinct_Array_from_Set)
  show "distinct (tags (addTag it x))" by (rule d)
  show m: "set (tags (addTag it x)) = insert x (set (tags it))"
    by (auto simp: tags_addTag Set_add_def set_Array_from_Set)
  have "Set_add (Array_from_Set (tags (addTag it x))) x = tags (addTag it x)"
    using d m by (simp add: Array_from_Set_distinct Set_add_def)
  then have "tags (addTag (addTag it x) x) = tags (addTag it x)"
    by (simp add: tags_addTag[of "addTag it x"])
  then show "addTag (addTag it x) x = addTag it x"
    by (simp add: addTag_def)
qed

theorem tag_add_then_remove_witness:
  "''x'' \<notin> set [''cat'', ''dog''] \<and> distinct [''cat'', ''dog'']
   \<and> tagChip_click ''x'' (addTag
        \<lparr>item_id = 0, name = ''a.mp4'', path = ''v/a.mp4'', size_bytes = 1, mtime = 0,
          mime_type = ''video/mp4'', file_handle = 0, url = None, duration = None,
          thumb = None, tags = [''cat'', ''dog'']\<rparr> ''x'')
      = \<lparr>item_id = 0, name = ''a.mp4'', path = ''v/a.mp4'', size_bytes = 1, mtime = 0,
          mime_type = ''video/mp4'', file_handle = 0, url = None, duration = None,
          thumb = None, tags = [''cat'', ''dog'']\<rparr>
   \<and> tags (addTag
        \<lparr>item_id = 0, name = ''a.mp4'', path = ''v/a.mp4'', size_bytes = 1, mtime = 0,
          mime_type = ''video/mp4'', file_handle = 0, url = None, duration = None,
          thumb = None, tags = [''cat'', ''dog'']\<rparr> ''x'') = [''cat'', ''dog'', ''x'']"
  using tag_add_then_remove [of "''x''"
      "\<lparr>item_id = 0, name = ''a.mp4'', path = ''v/a.mp4'', size_bytes = 1, mtime = 0,
          mime_type = ''video/mp4'', file_handle = 0, url = None, duration = None,
          thumb = None, tags = [''cat'', ''dog'']\<rparr>"]
  by (simp add: addTag_def Array_from_Set_def Set_add_def)

theorem tag_round_trip_counterexample:
  "set (tags (tagChip_click ''x'' (addTag
        \<lparr>item_id = 0, name = ''a.mp4'', path = ''v/a.mp4'', size_bytes = 1, mtime = 0,
          mime_type = ''video/mp4'', file_handle = 0, url = None, duration = None,
          thumb = None, tags = [''x'']\<rparr> ''x'')))
   \<noteq> set (tags
        \<lparr>item_id = 0, name = ''a.mp4'', path = ''v/a.mp4'', size_bytes = 1, mtime = 0,
          mime_type = ''video/mp4'', file_handle = 0, url = None, duration = None,
          thumb = None, tags = [''x'']\<rparr>)"
  by (simp add: tagChip_click_def addTag_def Array_from_Set_def Set_add_def)

section \<open>The seek position\<close>

text \<open>
  Claim C6. When the metadata has loaded with the duration \<open>d\<close>, a number, the handler
  asks the video to seek to \<open>clamp(d * 0.1, 0.1, 1.0)\<close>; the frame is captured in the
  handler of \<open>seeked\<close>, which runs only once a seek has been asked for.
\<close>

theorem seek_target_is_clamp:
  "(d \<noteq> NaN \<longrightarrow> seek_target d = clamp (js_mul d (Num (1 / 10))) (Num (1 / 10)) (Num 1))
   \<and> (step (LoadedMetadata k d) s = Some s' \<longrightarrow>
        currentTime (calls s' ! k) = Some (seek_target d))
   \<and> (step (Seeked j data) t = Some t' \<longrightarrow> currentTime (calls t ! j) \<noteq> None)"
proof (intro conjI impI)
  assume "d \<noteq> NaN"
  then show "seek_target d = clamp (js_mul d (Num (1 / 10))) (Num (1 / 10)) (Num 1)"
    by (cases d)
      (auto simp: seek_target_def clamp_def orElse_def Math_min_def Math_max_def js_inf_def)
next
  assume "step (LoadedMetadata k d) s = Some s'"
  then show "currentTime (calls s' ! k) = Some (seek_target d)"
    by (auto simp: on_loadedmetadata_def Let_def split: if_splits)
next
  assume "step (Seeked j data) t = Some t'"
  then show "currentTime (calls t ! j) \<noteq> None"
    by (auto split: if_splits)
qed

theorem seek_target_is_clamp_witness:
  "Num 3 \<noteq> NaN
   \<and> step (LoadedMetadata 0 (Num 3)) sample_claimed
       = Some (on_loadedmetadata 0 (Num 3) sample_claimed)
   \<and> step (Seeked 0 (Some ''jpeg'')) (on_loadedmetadata 0 (Num 3) sample_claimed)
       = Some (on_seeked 0 (Some ''jpeg'') (on_loadedmetadata 0 (Num 3) sample_claimed))
   \<and> seek_target (Num 3) = Num (3 / 10)
   \<and> clamp (js_mul (Num 3) (Num (1 / 10))) (Num (1 / 10)) (Num 1) = Num (3 / 10)
   \<and> currentTime (calls (on_loadedmetadata 0 (Num 3) sample_claimed) ! 0) = Some (Num (3 / 10))"
proof -
  have n: "length (calls sample_claimed) = 3" by code_simp
  have 1: "step (LoadedMetadata 0 (Num 3)) sample_claimed
       = Some (on_loadedmetadata 0 (Num 3) sample_claimed)"
    by (simp add: n)
  have 2: "step (Seeked 0 (Some ''jpeg'')) (on_loadedmetadata 0 (Num 3) sample_claimed)
       = Some (on_seeked 0 (Some ''jpeg'') (on_loadedmetadata 0 (Num 3) sample_claimed))"
    by (simp add: n on_loadedmetadata_def Let_def)
  have 3: "seek_target (Num 3) = Num (3 / 10)"
    by (simp add: seek_target_def orElse_def Math_min_def Math_max_def)
  show ?thesis
    using seek_target_is_clamp [of "Num 3" 0 sample_claimed
        "on_loadedmetadata 0 (Num 3) sample_claimed" 0 "Some ''jpeg''"
        "on_loadedmetadata 0 (Num 3) sample_claimed"
        "on_seeked 0 (Some ''jpeg'') (on_loadedmetadata 0 (Num 3) sample_claimed)"] 1 2 3
    by simp
qed

section \<open>Rendering leaves the catalog alone\<close>

text \<open>
  Claim C9. Whatever the query and the sort selection, after \<open>render\<close> the variable
  \<open>items\<close> refers to the same array, that array has the same elements in the same order,
  and the item objects are as they were: the filtered array is a new one, and it is the
  one that is sorted and shown.
\<close>

theorem render_keeps_items:
  "items_ref p < length (arrays p) \<Longrightarrow>
     items_ref (render localeCompare p) = items_ref p
     \<and> arrays (render localeCompare p) ! items_ref p = arrays p ! items_ref p
     \<and> objects (render localeCompare p) = objects p
     \<and> take (length (arrays p)) (arrays (render localeCompare p)) = arrays p
     \<and> grid (render localeCompare p) = arrays (render localeCompare p) ! length (arrays p)"
  by (simp add: render_def Array_filter_def Array_sort_def Let_def nth_append)

theorem render_keeps_items_witness:
  "items_ref sample_page < length (arrays sample_page)
   \<and> items_ref (render (\<lambda>a b. Num 0) sample_page) = 0
   \<and> arrays (render (\<lambda>a b. Num 0) sample_page) ! 0 = [0, 1, 2, 3]
   \<and> objects (render (\<lambda>a b. Num 0) sample_page) = objects sample_page
   \<and> grid (render (\<lambda>a b. Num 0) sample_page) = [1, 2, 0, 3]"
proof -
  have a: "items_ref sample_page = 0" "arrays sample_page = [[0, 1, 2, 3]]"
    by (simp_all add: sample_page_def)
  have h: "items_ref sample_page < length (arrays sample_page)" by (simp add: a)
  have g: "grid (render (\<lambda>a b. Num 0) sample_page) = [1, 2, 0, 3]" by code_simp
  show ?thesis
    using render_keeps_items [OF h, of "\<lambda>a b. Num 0"] h g by (simp add: a)
qed

section \<open>Properties of the enrichment pass\<close>

lemma cleanupItem_frame [simp]:
  "calls (cleanupItem i s) = calls s" "workers (cleanupItem i s) = workers s"
  "idx (cleanupItem i s) = idx s" "done_count (cleanupItem i s) = done_count s"
  "total (cleanupItem i s) = total s" "loading (cleanupItem i s) = loading s"
  "length (items (cleanupItem i s)) = length (items s)"
  "players (cleanupItem i s) = players s" "next_url (cleanupItem i s) = next_url s"
  by (simp_all add: cleanupItem_def revokeTrackedURL_def Let_def split: option.split)

lemma cleanupItem_url:
  "i < length (items s) \<Longrightarrow>
     url (items (cleanupItem i s) ! j) = (if j = i then None else url (items s ! j))"
  by (simp add: cleanupItem_def revokeTrackedURL_def Let_def nth_list_update split: option.split)

lemma cleanupItem_objectURLs:
  "set (objectURLs (cleanupItem i s))
     = (case url (items s ! i) of None \<Rightarrow> set (objectURLs s) | Some u \<Rightarrow> set (objectURLs s) - {u})"
  by (auto simp: cleanupItem_def revokeTrackedURL_def Let_def split: option.split)

lemma finalize_frame [simp]:
  "workers (finalize k s) = workers s" "idx (finalize k s) = idx s"
  "done_count (finalize k s) = done_count s" "total (finalize k s) = total s"
  "loading (finalize k s) = loading s" "length (items (finalize k s)) = length (items s)"
  "length (calls (finalize k s)) = length (calls s)"
  "players (finalize k s) = players s" "next_url (finalize k s) = next_url s"
  by (simp_all add: finalize_def Let_def)

lemma finalize_done: "call_done (calls s ! k) \<Longrightarrow> finalize k s = s"
  by (simp add: finalize_def)

lemma finalize_call:
  "k < length (calls s) \<Longrightarrow>
     calls (finalize k s) ! j =
       (if j = k \<and> \<not> call_done (calls s ! k)
        then (calls s ! k)\<lparr>call_done := True, cleanups := cleanups (calls s ! k) + 1,
               removed := removed (calls s ! k) + 1, resolved := resolved (calls s ! k) + 1\<rparr>
        else calls s ! j)"
  by (simp add: finalize_def Let_def nth_list_update)

lemma finalize_url:
  "k < length (calls s) \<Longrightarrow> call_item (calls s ! k) < length (items s) \<Longrightarrow>
     url (items (finalize k s) ! j) =
       (if j = call_item (calls s ! k) \<and> \<not> call_done (calls s ! k) then None else url (items s ! j))"
  by (simp add: finalize_def Let_def cleanupItem_url)

lemma finalize_objectURLs: "set (objectURLs (finalize k s)) \<subseteq> set (objectURLs s)"
  by (auto simp: finalize_def Let_def cleanupItem_objectURLs split: option.splits)

lemma finalize_objectURLs_item:
  "k < length (calls s) \<Longrightarrow> \<not> call_done (calls s ! k) \<Longrightarrow>
     url (items s ! call_item (calls s ! k)) = Some u \<Longrightarrow> u \<notin> set (objectURLs (finalize k s))"
  by (simp add: finalize_def Let_def cleanupItem_objectURLs)

lemma filter_update_count:
  "w < length xs \<Longrightarrow>
     length (filter P (xs[w := y])) + (if P (xs ! w) then 1 else 0)
       = length (filter P xs) + (if P y then 1 else 0)"
proof (induction xs arbitrary: w)
  case Nil
  then show ?case by simp
next
  case (Cons x xs)
  then show ?case by (cases w) auto
qed

lemma in_set_update_other:
  assumes "y \<in> set xs" "y \<noteq> xs ! w"
  shows "y \<in> set (xs[w := x])"
proof -
  from assms(1) obtain i where i: "i < length xs" "xs ! i = y" by (auto simp: in_set_conv_nth)
  then have "i \<noteq> w" using assms(2) by auto
  then have "xs[w := x] ! i = y" using i by simp
  then show ?thesis using i(1) by (metis length_list_update nth_mem)
qed

lemma in_set_update_cases: "y \<in> set (xs[w := x]) \<Longrightarrow> y = x \<or> y \<in> set xs"
  using set_update_subset_insert[of xs w x] by auto

lemma sched_invI:
  assumes "idx s \<le> length (items s)" "total s = length (items s)" "length (calls s) = idx s"
    and "\<And>k. k < length (calls s) \<Longrightarrow> call_item (calls s ! k) = k"
    and "\<And>k. k < length (calls s) \<Longrightarrow>
          cleanups (calls s ! k) = (if call_done (calls s ! k) then 1 else 0)
          \<and> removed (calls s ! k) = (if call_done (calls s ! k) then 1 else 0)
          \<and> resolved (calls s ! k) = (if call_done (calls s ! k) then 1 else 0)"
    and "\<And>k. Awaiting k \<in> set (workers s) \<Longrightarrow> k < length (calls s)"
    and "done_count s + length (filter is_awaiting (workers s)) = idx s"
    and "Exited \<in> set (workers s) \<Longrightarrow> idx s = length (items s)"
    and "\<And>k. k < length (calls s) \<Longrightarrow> call_done (calls s ! k) \<or> Awaiting k \<in> set (workers s)"
  shows "sched_inv s"
  unfolding sched_inv_def using assms by blast

lemma sched_invD:
  assumes "sched_inv s"
  shows "idx s \<le> length (items s)" "total s = length (items s)" "length (calls s) = idx s"
    and "\<And>k. k < length (calls s) \<Longrightarrow> call_item (calls s ! k) = k"
    and "\<And>k. k < length (calls s) \<Longrightarrow>
          cleanups (calls s ! k) = (if call_done (calls s ! k) then 1 else 0)
          \<and> removed (calls s ! k) = (if call_done (calls s ! k) then 1 else 0)
          \<and> resolved (calls s ! k) = (if call_done (calls s ! k) then 1 else 0)"
    and "\<And>k. Awaiting k \<in> set (workers s) \<Longrightarrow> k < length (calls s)"
    and "done_count s + length (filter is_awaiting (workers s)) = idx s"
    and "Exited \<in> set (workers s) \<Longrightarrow> idx s = length (items s)"
    and "\<And>k. k < length (calls s) \<Longrightarrow> call_done (calls s ! k) \<or> Awaiting k \<in> set (workers s)"
  using assms unfolding sched_inv_def by blast+

lemma sched_inv_start: "sched_inv (enrichAll_start s)"
  by (rule sched_invI) (simp_all add: enrichAll_start_def)

lemma sched_inv_cong:
  assumes "sched_inv s"
    and "length (items t) = length (items s)" "total t = total s" "idx t = idx s"
    and "workers t = workers s" "done_count t = done_count s"
    and "length (calls t) = length (calls s)"
    and "\<And>k. k < length (calls s) \<Longrightarrow>
           call_item (calls t ! k) = call_item (calls s ! k)
           \<and> call_done (calls t ! k) = call_done (calls s ! k)
           \<and> cleanups (calls t ! k) = cleanups (calls s ! k)
           \<and> removed (calls t ! k) = removed (calls s ! k)
           \<and> resolved (calls t ! k) = resolved (calls s ! k)"
  shows "sched_inv t"
proof (rule sched_invI)
  note d = sched_invD[OF assms(1)]
  show "idx t \<le> length (items t)" using d(1) assms(2,4) by simp
  show "total t = length (items t)" using d(2) assms(2,3) by simp
  show "length (calls t) = idx t" using d(3) assms(4,7) by simp
  show "call_item (calls t ! k) = k" if "k < length (calls t)" for k
    using that d(4)[of k] assms(7,8) by simp
  show "cleanups (calls t ! k) = (if call_done (calls t ! k) then 1 else 0)
      \<and> removed (calls t ! k) = (if call_done (calls t ! k) then 1 else 0)
      \<and> resolved (calls t ! k) = (if call_done (calls t ! k) then 1 else 0)"
    if "k < length (calls t)" for k
    using that d(5)[of k] assms(7) assms(8)[of k] by simp
  show "k < length (calls t)" if "Awaiting k \<in> set (workers t)" for k
    using that d(6)[of k] assms(5,7) by simp
  show "done_count t + length (filter is_awaiting (workers t)) = idx t"
    using d(7) assms(4,5,6) by simp
  show "idx t = length (items t)" if "Exited \<in> set (workers t)"
    using that d(8) assms(2,4,5) by simp
  show "call_done (calls t ! k) \<or> Awaiting k \<in> set (workers t)" if "k < length (calls t)" for k
    using that d(9)[of k] assms(5,7) assms(8)[of k] by simp
qed

lemma sched_inv_finalize:
  assumes "sched_inv s" "k < length (calls s)"
  shows "sched_inv (finalize k s)"
proof (cases "call_done (calls s ! k)")
  case True
  then show ?thesis using assms(1) by (simp add: finalize_done)
next
  case False
  note d = sched_invD[OF assms(1)]
  have c: "calls (finalize k s) ! j =
        (if j = k then (calls s ! k)\<lparr>call_done := True, cleanups := cleanups (calls s ! k) + 1,
               removed := removed (calls s ! k) + 1, resolved := resolved (calls s ! k) + 1\<rparr>
         else calls s ! j)" for j
    using False assms(2) by (simp add: finalize_call)
  show ?thesis
  proof (rule sched_invI)
    show "idx (finalize k s) \<le> length (items (finalize k s))" using d(1) by simp
    show "total (finalize k s) = length (items (finalize k s))" using d(2) by simp
    show "length (calls (finalize k s)) = idx (finalize k s)" using d(3) by simp
    show "call_item (calls (finalize k s) ! j) = j" if "j < length (calls (finalize k s))" for j
      using that d(4)[of j] by (auto simp: c)
    show "cleanups (calls (finalize k s) ! j) = (if call_done (calls (finalize k s) ! j) then 1 else 0)
      \<and> removed (calls (finalize k s) ! j) = (if call_done (calls (finalize k s) ! j) then 1 else 0)
      \<and> resolved (calls (finalize k s) ! j) = (if call_done (calls (finalize k s) ! j) then 1 else 0)"
      if "j < length (calls (finalize k s))" for j
      using that d(5)[of j] False by (auto simp: c)
    show "j < length (calls (finalize k s))" if "Awaiting j \<in> set (workers (finalize k s))" for j
      using that d(6)[of j] by simp
    show "done_count (finalize k s) + length (filter is_awaiting (workers (finalize k s)))
        = idx (finalize k s)"
      using d(7) by simp
    show "idx (finalize k s) = length (items (finalize k s))"
      if "Exited \<in> set (workers (finalize k s))"
      using that d(8) by simp
    show "call_done (calls (finalize k s) ! j) \<or> Awaiting j \<in> set (workers (finalize k s))"
      if "j < length (calls (finalize k s))" for j
      using that d(9)[of j] by (auto simp: c)
  qed
qed

lemma on_loadedmetadata_frame [simp]:
  "workers (on_loadedmetadata k d s) = workers s" "idx (on_loadedmetadata k d s) = idx s"
  "done_count (on_loadedmetadata k d s) = done_count s" "total (on_loadedmetadata k d s) = total s"
  "loading (on_loadedmetadata k d s) = loading s"
  "objectURLs (on_loadedmetadata k d s) = objectURLs s"
  "players (on_loadedmetadata k d s) = players s" "next_url (on_loadedmetadata k d s) = next_url s"
  "revoked (on_loadedmetadata k d s) = revoked s"
  "length (items (on_loadedmetadata k d s)) = length (items s)"
  "length (calls (on_loadedmetadata k d s)) = length (calls s)"
  by (simp_all add: on_loadedmetadata_def Let_def)

lemma on_loadedmetadata_call:
  "j < length (calls s) \<Longrightarrow>
     calls (on_loadedmetadata k d s) ! j
       = (if j = k then (calls s ! k)\<lparr>currentTime := Some (seek_target d)\<rparr> else calls s ! j)"
  by (simp add: on_loadedmetadata_def Let_def nth_list_update)

lemma on_loadedmetadata_url:
  "url (items (on_loadedmetadata k d s) ! j) = url (items s ! j)"
  by (cases "call_item (calls s ! k) < length (items s)")
    (simp_all add: on_loadedmetadata_def Let_def nth_list_update list_update_beyond)

lemma sched_inv_loadedmetadata:
  assumes "sched_inv s" "k < length (calls s)"
  shows "sched_inv (on_loadedmetadata k d s)"
  using assms(1)
proof (rule sched_inv_cong)
  fix j assume "j < length (calls s)"
  then show "call_item (calls (on_loadedmetadata k d s) ! j) = call_item (calls s ! j)
           \<and> call_done (calls (on_loadedmetadata k d s) ! j) = call_done (calls s ! j)
           \<and> cleanups (calls (on_loadedmetadata k d s) ! j) = cleanups (calls s ! j)
           \<and> removed (calls (on_loadedmetadata k d s) ! j) = removed (calls s ! j)
           \<and> resolved (calls (on_loadedmetadata k d s) ! j) = resolved (calls s ! j)"
    by (simp add: on_loadedmetadata_call)
qed simp_all

text \<open>The state in which the handler of \<open>seeked\<close> calls \<open>finalize\<close>.\<close>

lemma on_seeked_finalize:
  "on_seeked k data s =
     finalize k (case data of None \<Rightarrow> s
       | Some t \<Rightarrow> s\<lparr>items := (items s)[call_item (calls s ! k)
                        := (items s ! call_item (calls s ! k))\<lparr>thumb := Some t\<rparr>]\<rparr>)"
  by (simp add: on_seeked_def Let_def)

lemma sched_inv_seeked:
  assumes "sched_inv s" "k < length (calls s)"
  shows "sched_inv (on_seeked k data s)"
proof -
  let ?s1 = "case data of None \<Rightarrow> s
     | Some t \<Rightarrow> s\<lparr>items := (items s)[call_item (calls s ! k) := (items s ! call_item (calls s ! k))\<lparr>thumb := Some t\<rparr>]\<rparr>"
  have "sched_inv ?s1" using assms(1)
    by (rule sched_inv_cong) (simp_all split: option.split)
  moreover have "k < length (calls ?s1)" using assms(2) by (simp split: option.split)
  ultimately have "sched_inv (finalize k ?s1)" by (rule sched_inv_finalize)
  then show ?thesis by (simp only: on_seeked_finalize)
qed

lemma sched_inv_loop:
  assumes "sched_inv s" "step (Loop w) s = Some s'"
  shows "sched_inv s'"
proof -
  note d = sched_invD[OF assms(1)]
  from assms(2) have w: "w < length (workers s)" "workers s ! w = AtLoop"
    by (auto split: if_splits)
  show ?thesis
  proof (cases "idx s < length (items s)")
    case True
    let ?c = "\<lparr>call_item = idx s, call_done = False, currentTime = None,
                cleanups = 0, removed = 0, resolved = 0\<rparr>"
    let ?W = "(workers s)[w := Awaiting (length (calls s))]"
    from assms(2) w True have s': "s' = s\<lparr>idx := idx s + 1, calls := calls s @ [?c],
        workers := ?W\<rparr>" by simp
    have f: "idx s' = idx s + 1" "calls s' = calls s @ [?c]" "workers s' = ?W"
      "items s' = items s" "total s' = total s" "done_count s' = done_count s"
      by (simp_all add: s')
    have cnt: "length (filter is_awaiting ?W) = length (filter is_awaiting (workers s)) + 1"
      using filter_update_count[OF w(1), of is_awaiting "Awaiting (length (calls s))"] w(2) by simp
    show ?thesis
    proof (rule sched_invI)
      show "idx s' \<le> length (items s')" using True by (simp add: f)
      show "total s' = length (items s')" using d(2) by (simp add: f)
      show "length (calls s') = idx s'" using d(3) by (simp add: f)
      show "call_item (calls s' ! k) = k" if "k < length (calls s')" for k
        using that d(3) d(4)[of k] by (auto simp: f nth_append)
      show "cleanups (calls s' ! k) = (if call_done (calls s' ! k) then 1 else 0)
          \<and> removed (calls s' ! k) = (if call_done (calls s' ! k) then 1 else 0)
          \<and> resolved (calls s' ! k) = (if call_done (calls s' ! k) then 1 else 0)"
        if "k < length (calls s')" for k
        using that d(5)[of k] by (auto simp: f nth_append)
      show "k < length (calls s')" if "Awaiting k \<in> set (workers s')" for k
      proof -
        from that have "Awaiting k = Awaiting (length (calls s)) \<or> Awaiting k \<in> set (workers s)"
          unfolding f by (rule in_set_update_cases)
        then show ?thesis using d(6)[of k] by (auto simp: f)
      qed
      show "done_count s' + length (filter is_awaiting (workers s')) = idx s'"
        using d(7) cnt by (simp add: f)
      show "idx s' = length (items s')" if "Exited \<in> set (workers s')"
      proof -
        from that have "Exited = Awaiting (length (calls s)) \<or> Exited \<in> set (workers s)"
          unfolding f by (rule in_set_update_cases)
        then have "idx s = length (items s)" using d(8) by auto
        then show ?thesis using True by simp
      qed
      show "call_done (calls s' ! k) \<or> Awaiting k \<in> set (workers s')"
        if "k < length (calls s')" for k
      proof (cases "k < length (calls s)")
        case True
        from d(9)[OF True] show ?thesis
        proof
          assume "call_done (calls s ! k)"
          then show ?thesis using True by (simp add: f nth_append)
        next
          assume "Awaiting k \<in> set (workers s)"
          then have "Awaiting k \<in> set ?W" using w(2) by (intro in_set_update_other) simp_all
          then show ?thesis by (simp add: f)
        qed
      next
        case False
        then have "k = length (calls s)" using that by (simp add: f)
        then have "Awaiting k \<in> set ?W" using w(1) by (simp add: set_update_memI)
        then show ?thesis by (simp add: f)
      qed
    qed
  next
    case False
    let ?W = "(workers s)[w := Exited]"
    from assms(2) w False have s': "s' = s\<lparr>workers := ?W\<rparr>" by simp
    have f: "idx s' = idx s" "calls s' = calls s" "workers s' = ?W"
      "items s' = items s" "total s' = total s" "done_count s' = done_count s"
      by (simp_all add: s')
    have cnt: "length (filter is_awaiting ?W) = length (filter is_awaiting (workers s))"
      using filter_update_count[OF w(1), of is_awaiting Exited] w(2) by simp
    have aw: "Awaiting k \<in> set (workers s)" if "Awaiting k \<in> set ?W" for k
      using in_set_update_cases[OF that] by auto
    show ?thesis
    proof (rule sched_invI)
      show "idx s' \<le> length (items s')" using d(1) by (simp add: f)
      show "total s' = length (items s')" using d(2) by (simp add: f)
      show "length (calls s') = idx s'" using d(3) by (simp add: f)
      show "call_item (calls s' ! k) = k" if "k < length (calls s')" for k
        using that d(4)[of k] by (simp add: f)
      show "cleanups (calls s' ! k) = (if call_done (calls s' ! k) then 1 else 0)
          \<and> removed (calls s' ! k) = (if call_done (calls s' ! k) then 1 else 0)
          \<and> resolved (calls s' ! k) = (if call_done (calls s' ! k) then 1 else 0)"
        if "k < length (calls s')" for k
        using that d(5)[of k] by (simp add: f)
      show "k < length (calls s')" if "Awaiting k \<in> set (workers s')" for k
        using that aw[of k] d(6)[of k] by (simp add: f)
      show "done_count s' + length (filter is_awaiting (workers s')) = idx s'"
        using d(7) cnt by (simp add: f)
      show "idx s' = length (items s')" if "Exited \<in> set (workers s')"
        using False d(1) by (simp add: f)
      show "call_done (calls s' ! k) \<or> Awaiting k \<in> set (workers s')"
        if "k < length (calls s')" for k
      proof -
        from that have "call_done (calls s ! k) \<or> Awaiting k \<in> set (workers s)"
          using d(9)[of k] by (simp add: f)
        then show ?thesis
        proof
          assume "call_done (calls s ! k)"
          then show ?thesis by (simp add: f)
        next
          assume "Awaiting k \<in> set (workers s)"
          then have "Awaiting k \<in> set ?W" using w(2) by (intro in_set_update_other) simp_all
          then show ?thesis by (simp add: f)
        qed
      qed
    qed
  qed
qed

lemma sched_inv_resume:
  assumes "sched_inv s" "step (Resume w) s = Some s'"
  shows "sched_inv s'"
proof -
  note d = sched_invD[OF assms(1)]
  let ?W = "(workers s)[w := AtLoop]"
  from assms(2) obtain k where w: "w < length (workers s)" "workers s ! w = Awaiting k"
    and k: "k < length (calls s)" "0 < resolved (calls s ! k)"
    and s': "s' = s\<lparr>done_count := done_count s + 1,
        loading := loading s @ [Processing (done_count s + 1) (total s)],
        workers := ?W\<rparr>"
    by (auto split: if_splits worker.splits)
  have f: "idx s' = idx s" "calls s' = calls s" "workers s' = ?W"
    "items s' = items s" "total s' = total s" "done_count s' = done_count s + 1"
    by (simp_all add: s')
  have dn: "call_done (calls s ! k)"
    using d(5)[OF k(1)] k(2) by (cases "call_done (calls s ! k)") simp_all
  have cnt: "length (filter is_awaiting ?W) + 1 = length (filter is_awaiting (workers s))"
    using filter_update_count[OF w(1), of is_awaiting AtLoop] w(2) by simp
  have aw: "Awaiting j \<in> set (workers s)" if "Awaiting j \<in> set ?W" for j
    using in_set_update_cases[OF that] by auto
  show ?thesis
  proof (rule sched_invI)
    show "idx s' \<le> length (items s')" using d(1) by (simp add: f)
    show "total s' = length (items s')" using d(2) by (simp add: f)
    show "length (calls s') = idx s'" using d(3) by (simp add: f)
    show "call_item (calls s' ! j) = j" if "j < length (calls s')" for j
      using that d(4)[of j] by (simp add: f)
    show "cleanups (calls s' ! j) = (if call_done (calls s' ! j) then 1 else 0)
        \<and> removed (calls s' ! j) = (if call_done (calls s' ! j) then 1 else 0)
        \<and> resolved (calls s' ! j) = (if call_done (calls s' ! j) then 1 else 0)"
      if "j < length (calls s')" for j
      using that d(5)[of j] by (simp add: f)
    show "j < length (calls s')" if "Awaiting j \<in> set (workers s')" for j
      using that aw[of j] d(6)[of j] by (simp add: f)
    show "done_count s' + length (filter is_awaiting (workers s')) = idx s'"
      using d(7) cnt by (simp add: f)
    show "idx s' = length (items s')" if "Exited \<in> set (workers s')"
    proof -
      from that have "Exited = AtLoop \<or> Exited \<in> set (workers s)"
        unfolding f by (rule in_set_update_cases)
      then show ?thesis using d(8) by (simp add: f)
    qed
    show "call_done (calls s' ! j) \<or> Awaiting j \<in> set (workers s')"
      if "j < length (calls s')" for j
    proof (cases "j = k")
      case True
      then show ?thesis using dn by (simp add: f)
    next
      case False
      from that have "call_done (calls s ! j) \<or> Awaiting j \<in> set (workers s)"
        using d(9)[of j] by (simp add: f)
      then show ?thesis
      proof
        assume "call_done (calls s ! j)"
        then show ?thesis by (simp add: f)
      next
        assume "Awaiting j \<in> set (workers s)"
        then have "Awaiting j \<in> set ?W" using w(2) False by (intro in_set_update_other) simp_all
        then show ?thesis by (simp add: f)
      qed
    qed
  qed
qed

lemma sched_inv_step:
  assumes "sched_inv s" "step a s = Some s'"
  shows "sched_inv s'"
proof (cases a)
  case (Loop w)
  then show ?thesis using assms sched_inv_loop by blast
next
  case (Resume w)
  then show ?thesis using assms sched_inv_resume by blast
next
  case (LoadedMetadata k d)
  then show ?thesis using assms sched_inv_loadedmetadata by (auto split: if_splits)
next
  case (Seeked k data)
  then show ?thesis using assms sched_inv_seeked by (auto split: if_splits)
next
  case (Error k)
  then show ?thesis using assms sched_inv_finalize by (auto split: if_splits)
next
  case (Timeout k)
  then show ?thesis using assms sched_inv_finalize by (auto split: if_splits)
next
  case (OpenPlayer f)
  show ?thesis using assms(1)
    by (rule sched_inv_cong)
      (use assms(2) OpenPlayer in \<open>auto simp: trackObjectURL_def Let_def\<close>)
next
  case (ClosePlayer u)
  show ?thesis using assms(1)
    by (rule sched_inv_cong)
      (use assms(2) ClosePlayer in \<open>auto simp: revokeTrackedURL_def split: if_splits\<close>)
qed

lemma sched_inv_run:
  "sched_inv s \<Longrightarrow> run as s = Some s' \<Longrightarrow> sched_inv s'"
proof (induction as arbitrary: s)
  case Nil
  then show ?case by simp
next
  case (Cons a as)
  then show ?case by (auto split: option.splits dest: sched_inv_step)
qed

lemma on_seeked_frame [simp]:
  "workers (on_seeked k data s) = workers s" "idx (on_seeked k data s) = idx s"
  "done_count (on_seeked k data s) = done_count s" "total (on_seeked k data s) = total s"
  "loading (on_seeked k data s) = loading s"
  "length (items (on_seeked k data s)) = length (items s)"
  "length (calls (on_seeked k data s)) = length (calls s)"
  "players (on_seeked k data s) = players s" "next_url (on_seeked k data s) = next_url s"
  by (simp_all add: on_seeked_finalize split: option.split)

lemma on_seeked_call:
  "k < length (calls s) \<Longrightarrow>
     calls (on_seeked k data s) ! j =
       (if j = k \<and> \<not> call_done (calls s ! k)
        then (calls s ! k)\<lparr>call_done := True, cleanups := cleanups (calls s ! k) + 1,
               removed := removed (calls s ! k) + 1, resolved := resolved (calls s ! k) + 1\<rparr>
        else calls s ! j)"
  by (simp add: on_seeked_finalize finalize_call split: option.split)

lemma step_frame:
  assumes "step a s = Some s'"
  shows "total s' = total s" "length (items s') = length (items s)"
    "length (workers s') = length (workers s)"
  using assms
  by (cases a; auto simp: trackObjectURL_def revokeTrackedURL_def Let_def
        split: if_splits worker.splits)+

lemma run_frame:
  "run as s = Some s' \<Longrightarrow>
     total s' = total s \<and> length (items s') = length (items s)
     \<and> length (workers s') = length (workers s)"
proof (induction as arbitrary: s)
  case Nil
  then show ?case by simp
next
  case (Cons a as)
  then obtain s1 where 1: "step a s = Some s1" and 2: "run as s1 = Some s'"
    by (auto split: option.splits)
  show ?case using Cons.IH[OF 2] step_frame[OF 1] by simp
qed

lemma step_loading:
  assumes "step a s = Some s'"
  shows "(done_count s' = done_count s \<and> loading s' = loading s)
     \<or> (done_count s' = Suc (done_count s)
         \<and> loading s' = loading s @ [Processing (Suc (done_count s)) (total s)])"
  using assms
  by (cases a)
    (auto simp: trackObjectURL_def revokeTrackedURL_def Let_def split: if_splits worker.splits)

lemma run_loading:
  "run as s = Some s' \<Longrightarrow>
     done_count s \<le> done_count s'
     \<and> loading s' = loading s @ map (\<lambda>j. Processing (Suc j) (total s)) [done_count s..<done_count s']"
proof (induction as arbitrary: s)
  case Nil
  then show ?case by simp
next
  case (Cons a as)
  then obtain s1 where 1: "step a s = Some s1" and 2: "run as s1 = Some s'"
    by (auto split: option.splits)
  note ih = Cons.IH[OF 2]
  have t: "total s1 = total s" using step_frame(1)[OF 1] .
  from step_loading[OF 1] show ?case
  proof
    assume "done_count s1 = done_count s \<and> loading s1 = loading s"
    then show ?thesis using ih t by simp
  next
    assume a: "done_count s1 = Suc (done_count s)
         \<and> loading s1 = loading s @ [Processing (Suc (done_count s)) (total s)]"
    then have "done_count s < done_count s'" using ih by simp
    then have "[done_count s..<done_count s'] = done_count s # [Suc (done_count s)..<done_count s']"
      by (rule upt_conv_Cons)
    then show ?thesis using ih a t by simp
  qed
qed

lemma step_done_iff:
  assumes "step a s = Some s'"
  shows "(k < length (calls s') \<and> call_done (calls s' ! k))
     \<longleftrightarrow> (k < length (calls s) \<and> call_done (calls s ! k)) \<or> triggers k a"
proof (cases a)
  case (Loop w)
  then show ?thesis using assms by (auto simp: nth_append less_Suc_eq split: if_splits)
next
  case (Resume w)
  then show ?thesis using assms by (auto split: if_splits worker.splits)
next
  case (LoadedMetadata j d)
  then show ?thesis using assms by (auto simp: on_loadedmetadata_call split: if_splits)
next
  case (Seeked j data)
  then show ?thesis using assms by (auto simp: on_seeked_call split: if_splits)
next
  case (Error j)
  then show ?thesis using assms by (auto simp: finalize_call split: if_splits)
next
  case (Timeout j)
  then show ?thesis using assms by (auto simp: finalize_call split: if_splits)
next
  case (OpenPlayer f)
  then show ?thesis using assms by (auto simp: trackObjectURL_def Let_def)
next
  case (ClosePlayer u)
  then show ?thesis using assms by (auto simp: revokeTrackedURL_def split: if_splits)
qed

lemma run_done_iff:
  "run as s = Some s' \<Longrightarrow>
     (k < length (calls s') \<and> call_done (calls s' ! k))
       \<longleftrightarrow> (k < length (calls s) \<and> call_done (calls s ! k)) \<or> (\<exists>a\<in>set as. triggers k a)"
proof (induction as arbitrary: s)
  case Nil
  then show ?case by simp
next
  case (Cons a as)
  then obtain s1 where 1: "step a s = Some s1" and 2: "run as s1 = Some s'"
    by (auto split: option.splits)
  show ?case using Cons.IH[OF 2] step_done_iff[OF 1, of k] by auto
qed

lemma all_exited_iff: "all_exited s \<longleftrightarrow> set (workers s) \<subseteq> {Exited}"
  by (auto simp: all_exited_def list_all_iff)

text \<open>When the three workers are past their loops, every item has one call, and it is done.\<close>

lemma pass_complete:
  assumes "run as (enrichAll_start s0) = Some s" "all_exited s"
  shows "idx s = length (items s0)" "length (calls s) = length (items s0)"
    "done_count s = length (items s0)" "length (items s) = length (items s0)"
    "\<And>k. k < length (items s0) \<Longrightarrow> call_done (calls s ! k)"
proof -
  have inv: "sched_inv s" using sched_inv_start assms(1) by (rule sched_inv_run)
  note d = sched_invD[OF inv]
  have fr: "length (items s) = length (items s0)" "length (workers s) = 3"
    using run_frame[OF assms(1)] by (simp_all add: enrichAll_start_def concurrency_def)
  show "length (items s) = length (items s0)" by (rule fr)
  have w: "set (workers s) = {Exited}"
  proof -
    have "workers s \<noteq> []" using fr(2) by auto
    then show ?thesis using assms(2) unfolding all_exited_iff by (cases "workers s") auto
  qed
  then show i: "idx s = length (items s0)" using d(8) fr by simp
  show l: "length (calls s) = length (items s0)" using d(3) i by simp
  have "filter is_awaiting (workers s) = []" using w by (auto simp: filter_empty_conv)
  then show "done_count s = length (items s0)" using d(7) i by simp
  show "call_done (calls s ! k)" if "k < length (items s0)" for k
    using d(9)[of k] that l w by auto
qed

lemma reg_invI:
  assumes "\<And>u. u \<in> set (objectURLs s) \<Longrightarrow>
             (\<exists>i<length (items s). url (items s ! i) = Some u) \<or> u \<in> set (players s)"
    and "\<And>k. k < length (calls s) \<Longrightarrow> call_done (calls s ! k) \<Longrightarrow> url (items s ! k) = None"
  shows "reg_inv s"
  unfolding reg_inv_def using assms by blast

lemma reg_invD:
  assumes "reg_inv s"
  shows "\<And>u. u \<in> set (objectURLs s) \<Longrightarrow>
             (\<exists>i<length (items s). url (items s ! i) = Some u) \<or> u \<in> set (players s)"
    and "\<And>k. k < length (calls s) \<Longrightarrow> call_done (calls s ! k) \<Longrightarrow> url (items s ! k) = None"
  using assms unfolding reg_inv_def by blast+

lemma reg_inv_cong:
  assumes "reg_inv s"
    and "set (objectURLs t) \<subseteq> set (objectURLs s) \<union> set (players t)"
    and "set (objectURLs t) \<inter> set (players s) \<subseteq> set (players t)"
    and "length (items t) = length (items s)"
    and "\<And>j. url (items t ! j) = url (items s ! j)"
    and "length (calls t) \<le> Suc (length (calls s))"
    and "\<And>k. k < length (calls t) \<Longrightarrow> call_done (calls t ! k) \<Longrightarrow>
           k < length (calls s) \<and> call_done (calls s ! k)"
  shows "reg_inv t"
proof (rule reg_invI)
  note d = reg_invD[OF assms(1)]
  show "(\<exists>i<length (items t). url (items t ! i) = Some u) \<or> u \<in> set (players t)"
    if "u \<in> set (objectURLs t)" for u
  proof (cases "u \<in> set (players t)")
    case True
    then show ?thesis ..
  next
    case False
    then have u: "u \<in> set (objectURLs s)" "u \<notin> set (players s)"
      using that assms(2,3) by auto
    then show ?thesis using d(1)[of u] assms(4,5) by simp
  qed
  show "url (items t ! k) = None" if "k < length (calls t)" "call_done (calls t ! k)" for k
    using assms(7)[OF that] d(2)[of k] assms(5) by simp
qed

lemma reg_inv_finalize:
  assumes "sched_inv s" "reg_inv s" "k < length (calls s)"
  shows "reg_inv (finalize k s)"
proof (cases "call_done (calls s ! k)")
  case True
  then show ?thesis using assms(2) by (simp add: finalize_done)
next
  case False
  note d = sched_invD[OF assms(1)]
  note r = reg_invD[OF assms(2)]
  have ci: "call_item (calls s ! k) = k" using d(4)[OF assms(3)] .
  have kN: "k < length (items s)" using assms(3) d(1,3) by simp
  have u: "url (items (finalize k s) ! j) = (if j = k then None else url (items s ! j))" for j
    using finalize_url[OF assms(3), of j] ci kN False by simp
  show ?thesis
  proof (rule reg_invI)
    fix v assume v: "v \<in> set (objectURLs (finalize k s))"
    then have "v \<in> set (objectURLs s)" using finalize_objectURLs by blast
    then consider (item) i where "i < length (items s)" "url (items s ! i) = Some v"
      | (player) "v \<in> set (players s)"
      using r(1) by blast
    then show "(\<exists>i<length (items (finalize k s)). url (items (finalize k s) ! i) = Some v)
        \<or> v \<in> set (players (finalize k s))"
    proof cases
      case item
      have "i \<noteq> k"
      proof
        assume "i = k"
        then have "url (items s ! call_item (calls s ! k)) = Some v" using item(2) ci by simp
        from finalize_objectURLs_item[OF assms(3) False this] v show False by simp
      qed
      then show ?thesis using item by (auto simp: u)
    next
      case player
      then show ?thesis by simp
    qed
  next
    fix j assume j: "j < length (calls (finalize k s))" "call_done (calls (finalize k s) ! j)"
    show "url (items (finalize k s) ! j) = None"
    proof (cases "j = k")
      case True
      then show ?thesis by (simp add: u)
    next
      case False
      then have "call_done (calls s ! j)" using j assms(3) by (simp add: finalize_call)
      then show ?thesis using r(2)[of j] j(1) False by (simp add: u)
    qed
  qed
qed

lemma reg_inv_step:
  assumes "sched_inv s" "reg_inv s" "step a s = Some s'"
  shows "reg_inv s'"
proof (cases a)
  case (Loop w)
  show ?thesis using assms(2)
    by (rule reg_inv_cong) (use assms(3) Loop in \<open>auto simp: nth_append less_Suc_eq split: if_splits\<close>)
next
  case (Resume w)
  show ?thesis using assms(2)
    by (rule reg_inv_cong) (use assms(3) Resume in \<open>auto split: if_splits worker.splits\<close>)
next
  case (LoadedMetadata k d)
  show ?thesis using assms(2)
    by (rule reg_inv_cong)
      (use assms(3) LoadedMetadata in \<open>auto simp: on_loadedmetadata_url on_loadedmetadata_call split: if_splits\<close>)
next
  case (Seeked k data)
  define s1 where "s1 = (case data of None \<Rightarrow> s
     | Some t \<Rightarrow> s\<lparr>items := (items s)[call_item (calls s ! k)
                      := (items s ! call_item (calls s ! k))\<lparr>thumb := Some t\<rparr>]\<rparr>)"
  from assms(3) Seeked have k: "k < length (calls s)" and s': "s' = on_seeked k data s"
    by (auto split: if_splits)
  have u: "url (items s1 ! j) = url (items s ! j)" for j
    unfolding s1_def
    by (cases "call_item (calls s ! k) < length (items s)")
      (simp_all add: nth_list_update list_update_beyond split: option.split)
  have c: "calls s1 = calls s" "objectURLs s1 = objectURLs s"
    "length (items s1) = length (items s)" "total s1 = total s" "idx s1 = idx s"
    "workers s1 = workers s" "done_count s1 = done_count s" "players s1 = players s"
    unfolding s1_def by (simp_all split: option.split)
  have 1: "reg_inv s1" using assms(2)
    by (rule reg_inv_cong) (simp_all add: c u)
  have 2: "sched_inv s1" using assms(1)
    by (rule sched_inv_cong) (simp_all add: c)
  have "k < length (calls s1)" using k by (simp add: c)
  with 2 1 have "reg_inv (finalize k s1)" by (rule reg_inv_finalize)
  then show ?thesis unfolding s' on_seeked_finalize s1_def .
next
  case (Error k)
  then show ?thesis using assms reg_inv_finalize by (auto split: if_splits)
next
  case (Timeout k)
  then show ?thesis using assms reg_inv_finalize by (auto split: if_splits)
next
  case (OpenPlayer f)
  show ?thesis using assms(2)
    by (rule reg_inv_cong)
      (use assms(3) OpenPlayer in \<open>auto simp: trackObjectURL_def Set_add_def Let_def split: if_splits\<close>)
next
  case (ClosePlayer u)
  show ?thesis using assms(2)
    by (rule reg_inv_cong)
      (use assms(3) ClosePlayer in \<open>auto simp: revokeTrackedURL_def split: if_splits\<close>)
qed

lemma reg_inv_run:
  "sched_inv s \<Longrightarrow> reg_inv s \<Longrightarrow> run as s = Some s' \<Longrightarrow> reg_inv s'"
proof (induction as arbitrary: s)
  case Nil
  then show ?case by simp
next
  case (Cons a as)
  then obtain s1 where 1: "step a s = Some s1" and 2: "run as s1 = Some s'"
    by (auto split: option.splits)
  show ?case
    using Cons.IH[OF sched_inv_step[OF Cons.prems(1) 1] reg_inv_step[OF Cons.prems(1,2) 1] 2] .
qed

text \<open>After a scan, the tracked URLs are URLs of the items.\<close>

lemma push_file_tracked:
  assumes "\<forall>u\<in>set (objectURLs s). \<exists>i<length (items s). url (items s ! i) = Some u"
  shows "\<forall>u\<in>set (objectURLs (push_file s f)).
           \<exists>i<length (items (push_file s f)). url (items (push_file s f) ! i) = Some u"
proof (cases "VIDEO_EXT_test (file_name f)")
  case False
  then show ?thesis using assms by (simp add: push_file_def)
next
  case True
  show ?thesis
  proof
    fix u assume "u \<in> set (objectURLs (push_file s f))"
    then have "u = next_url s \<or> u \<in> set (objectURLs s)"
      using True by (auto simp: push_file_def trackObjectURL_def Set_add_def Let_def split: if_splits)
    then show "\<exists>i<length (items (push_file s f)). url (items (push_file s f) ! i) = Some u"
    proof
      assume "u = next_url s"
      then have "url (items (push_file s f) ! length (items s)) = Some u"
        using True by (simp add: push_file_def trackObjectURL_def Let_def)
      moreover have "length (items s) < length (items (push_file s f))"
        using True by (simp add: push_file_def trackObjectURL_def Let_def)
      ultimately show ?thesis by blast
    next
      assume "u \<in> set (objectURLs s)"
      then obtain i where i: "i < length (items s)" "url (items s ! i) = Some u"
        using assms by blast
      then have "url (items (push_file s f) ! i) = Some u"
        using True by (simp add: push_file_def trackObjectURL_def Let_def nth_append)
      moreover have "i < length (items (push_file s f))"
        using True i(1) by (simp add: push_file_def trackObjectURL_def Let_def)
      ultimately show ?thesis by blast
    qed
  qed
qed

lemma foldl_push_file_tracked:
  "\<forall>u\<in>set (objectURLs s). \<exists>i<length (items s). url (items s ! i) = Some u \<Longrightarrow>
     \<forall>u\<in>set (objectURLs (foldl push_file s fs)).
        \<exists>i<length (items (foldl push_file s fs)). url (items (foldl push_file s fs) ! i) = Some u"
proof (induction fs arbitrary: s)
  case Nil
  then show ?case by simp
next
  case (Cons f fs)
  show ?case using Cons.IH[OF push_file_tracked[OF Cons.prems]] by simp
qed

lemma reg_inv_scan: "reg_inv (enrichAll_start (scan_files fs s0))"
proof (rule reg_invI)
  let ?s2 = "(revokeAllObjectURLs s0)\<lparr>loading := loading (revokeAllObjectURLs s0) @ [Scanning], items := []\<rparr>"
  have "objectURLs ?s2 = []" by (simp add: revokeAllObjectURLs_def Let_def)
  then have "\<forall>u\<in>set (objectURLs ?s2). \<exists>i<length (items ?s2). url (items ?s2 ! i) = Some u"
    by simp
  from foldl_push_file_tracked[OF this, of fs]
  show "(\<exists>i<length (items (enrichAll_start (scan_files fs s0))).
          url (items (enrichAll_start (scan_files fs s0)) ! i) = Some u)
        \<or> u \<in> set (players (enrichAll_start (scan_files fs s0)))"
    if "u \<in> set (objectURLs (enrichAll_start (scan_files fs s0)))" for u
    using that by (simp add: enrichAll_start_def scan_files_def Let_def)
  show "url (items (enrichAll_start (scan_files fs s0)) ! k) = None"
    if "k < length (calls (enrichAll_start (scan_files fs s0)))" for k
    using that by (simp add: enrichAll_start_def)
qed

lemma finalize_calls:
  "k < length (calls s) \<Longrightarrow> \<not> call_done (calls s ! k) \<Longrightarrow>
     calls (finalize k s) =
       (calls s)[k := (calls s ! k)\<lparr>call_done := True, cleanups := cleanups (calls s ! k) + 1,
               removed := removed (calls s ! k) + 1, resolved := resolved (calls s ! k) + 1\<rparr>]"
  by (simp add: finalize_def Let_def)

text \<open>While a worker is still in its loop, something can happen that brings the pass on.\<close>

lemma pass_progress:
  assumes "sched_inv s" "\<not> all_exited s"
  shows "\<exists>a s'. step a s = Some s' \<and> pending s' < pending s"
proof -
  note d = sched_invD[OF assms(1)]
  from assms(2) obtain w where w: "w < length (workers s)" "workers s ! w \<noteq> Exited"
    by (auto simp: all_exited_def list_all_length)
  show ?thesis
  proof (cases "workers s ! w")
    case AtLoop
    show ?thesis
    proof (cases "idx s < length (items s)")
      case True
      let ?W = "(workers s)[w := Awaiting (length (calls s))]"
      let ?c = "\<lparr>call_item = idx s, call_done = False, currentTime = None,
                cleanups = 0, removed = 0, resolved = 0\<rparr>"
      let ?s' = "s\<lparr>idx := idx s + 1, calls := calls s @ [?c], workers := ?W\<rparr>"
      have st: "step (Loop w) s = Some ?s'" using w AtLoop True by simp
      have a: "length (filter is_awaiting ?W) = length (filter is_awaiting (workers s)) + 1"
        using filter_update_count[OF w(1), of is_awaiting "Awaiting (length (calls s))"] AtLoop
        by simp
      have l: "length (filter (\<lambda>w. w = AtLoop) ?W) + 1
          = length (filter (\<lambda>w. w = AtLoop) (workers s))"
        using filter_update_count[OF w(1), of "\<lambda>w. w = AtLoop" "Awaiting (length (calls s))"] AtLoop
        by simp
      have "pending ?s' < pending s" using True a l by (simp add: pending_def)
      then show ?thesis using st by blast
    next
      case False
      let ?W = "(workers s)[w := Exited]"
      let ?s' = "s\<lparr>workers := ?W\<rparr>"
      have st: "step (Loop w) s = Some ?s'" using w AtLoop False by simp
      have a: "length (filter is_awaiting ?W) = length (filter is_awaiting (workers s))"
        using filter_update_count[OF w(1), of is_awaiting Exited] AtLoop by simp
      have l: "length (filter (\<lambda>w. w = AtLoop) ?W) + 1
          = length (filter (\<lambda>w. w = AtLoop) (workers s))"
        using filter_update_count[OF w(1), of "\<lambda>w. w = AtLoop" Exited] AtLoop by simp
      have "pending ?s' < pending s" using a l by (simp add: pending_def)
      then show ?thesis using st by blast
    qed
  next
    case (Awaiting k)
    then have "Awaiting k \<in> set (workers s)" using w(1) by (metis nth_mem)
    then have k: "k < length (calls s)" by (rule d(6))
    show ?thesis
    proof (cases "call_done (calls s ! k)")
      case True
      let ?W = "(workers s)[w := AtLoop]"
      let ?s' = "s\<lparr>done_count := done_count s + 1,
        loading := loading s @ [Processing (done_count s + 1) (total s)], workers := ?W\<rparr>"
      have "0 < resolved (calls s ! k)" using d(5)[OF k] True by simp
      then have st: "step (Resume w) s = Some ?s'" using w Awaiting k by simp
      have a: "length (filter is_awaiting ?W) + 1 = length (filter is_awaiting (workers s))"
        using filter_update_count[OF w(1), of is_awaiting AtLoop] Awaiting by simp
      have l: "length (filter (\<lambda>w. w = AtLoop) ?W)
          = length (filter (\<lambda>w. w = AtLoop) (workers s)) + 1"
        using filter_update_count[OF w(1), of "\<lambda>w. w = AtLoop" AtLoop] Awaiting by simp
      have "pending ?s' < pending s" using a l by (simp add: pending_def)
      then show ?thesis using st by blast
    next
      case False
      have st: "step (Timeout k) s = Some (finalize k s)" using k by simp
      have "length (filter (\<lambda>c. \<not> call_done c) (calls (finalize k s))) + 1
          = length (filter (\<lambda>c. \<not> call_done c) (calls s))"
        using filter_update_count[OF k, of "\<lambda>c. \<not> call_done c"] False
        by (simp add: finalize_calls[OF k False])
      then have "pending (finalize k s) < pending s" by (simp add: pending_def)
      then show ?thesis using st by blast
    qed
  next
    case Exited
    then show ?thesis using w(2) by simp
  qed
qed

text \<open>From every state of a pass there is a way to its end.\<close>

lemma pass_can_complete:
  "sched_inv s \<Longrightarrow> \<exists>as s'. run as s = Some s' \<and> all_exited s'"
proof (induction s rule: measure_induct_rule[of pending])
  case (less s)
  show ?case
  proof (cases "all_exited s")
    case True
    then have "run [] s = Some s \<and> all_exited s" by simp
    then show ?thesis by blast
  next
    case False
    from pass_progress[OF less.prems False] obtain a s1
      where 1: "step a s = Some s1" and 2: "pending s1 < pending s" by blast
    have "sched_inv s1" using less.prems 1 by (rule sched_inv_step)
    from less.IH[OF 2 this] obtain as s' where 3: "run as s1 = Some s'" "all_exited s'"
      by blast
    have "run (a # as) s = Some s'" using 1 3(1) by simp
    then show ?thesis using 3(2) by blast
  qed
qed

lemma run_append:
  "run (as @ bs) s = (case run as s of None \<Rightarrow> None | Some s' \<Rightarrow> run bs s')"
  by (induction as arbitrary: s) (auto split: option.splits)

lemma accounted_cong:
  assumes "accounted s" "next_url t = next_url s" "set (objectURLs s) \<subseteq> set (objectURLs t) \<union> set (revoked t)"
    "set (revoked s) \<subseteq> set (revoked t)"
  shows "accounted t"
  using assms unfolding accounted_def by auto

lemma accounted_cleanupItem: "accounted s \<Longrightarrow> accounted (cleanupItem i s)"
  by (erule accounted_cong)
    (auto simp: cleanupItem_def revokeTrackedURL_def Let_def split: option.split)

lemma accounted_foldl_cleanupItem:
  "accounted s \<Longrightarrow> accounted (foldl (\<lambda>t i. cleanupItem i t) s is)"
  by (induction "is" arbitrary: s) (simp_all add: accounted_cleanupItem)

lemma accounted_revokeAll: "accounted s \<Longrightarrow> accounted (revokeAllObjectURLs s)"
proof -
  assume "accounted s"
  then have "accounted (foldl (\<lambda>t i. cleanupItem i t) s [0..<length (items s)])"
    by (rule accounted_foldl_cleanupItem)
  then show ?thesis
    by (rule accounted_cong) (auto simp: revokeAllObjectURLs_def Let_def)
qed

lemma accounted_push_file: "accounted s \<Longrightarrow> accounted (push_file s f)"
  unfolding accounted_def
  by (auto simp: push_file_def trackObjectURL_def Set_add_def Let_def less_Suc_eq)

lemma accounted_foldl_push_file: "accounted s \<Longrightarrow> accounted (foldl push_file s fs)"
  by (induction fs arbitrary: s) (simp_all add: accounted_push_file)

lemma accounted_scan: "accounted s \<Longrightarrow> accounted (enrichAll_start (scan_files fs s))"
proof -
  assume "accounted s"
  then have "accounted (revokeAllObjectURLs s)" by (rule accounted_revokeAll)
  then have "accounted ((revokeAllObjectURLs s)
      \<lparr>loading := loading (revokeAllObjectURLs s) @ [Scanning], items := []\<rparr>)"
    by (rule accounted_cong) simp_all
  then have "accounted (foldl push_file ((revokeAllObjectURLs s)
      \<lparr>loading := loading (revokeAllObjectURLs s) @ [Scanning], items := []\<rparr>) fs)"
    by (rule accounted_foldl_push_file)
  then show ?thesis
    by (rule accounted_cong) (simp_all add: scan_files_def enrichAll_start_def Let_def)
qed

lemma accounted_finalize: "accounted s \<Longrightarrow> accounted (finalize k s)"
proof (cases "call_done (calls s ! k)")
  case True
  assume "accounted s"
  then show ?thesis using True by (simp add: finalize_done)
next
  case False
  assume "accounted s"
  then have "accounted (s\<lparr>calls := (calls s)[k := (calls s ! k)\<lparr>call_done := True\<rparr>]\<rparr>)"
    by (rule accounted_cong) simp_all
  then have "accounted (cleanupItem (call_item (calls s ! k))
      (s\<lparr>calls := (calls s)[k := (calls s ! k)\<lparr>call_done := True\<rparr>]\<rparr>))"
    by (rule accounted_cleanupItem)
  then show ?thesis
    by (rule accounted_cong) (simp_all add: finalize_def Let_def False)
qed

lemma accounted_step:
  assumes "accounted s" "step a s = Some s'"
  shows "accounted s'"
proof (cases a)
  case (Loop w)
  show ?thesis using assms(1)
    by (rule accounted_cong) (use assms(2) Loop in \<open>auto split: if_splits\<close>)
next
  case (Resume w)
  show ?thesis using assms(1)
    by (rule accounted_cong) (use assms(2) Resume in \<open>auto split: if_splits worker.splits\<close>)
next
  case (LoadedMetadata k d)
  show ?thesis using assms(1)
    by (rule accounted_cong)
      (use assms(2) LoadedMetadata in \<open>auto simp: on_loadedmetadata_def Let_def split: if_splits\<close>)
next
  case (Seeked k data)
  define s1 where "s1 = (case data of None \<Rightarrow> s
     | Some t \<Rightarrow> s\<lparr>items := (items s)[call_item (calls s ! k)
                      := (items s ! call_item (calls s ! k))\<lparr>thumb := Some t\<rparr>]\<rparr>)"
  have "accounted s1" using assms(1)
    by (rule accounted_cong) (simp_all add: s1_def split: option.split)
  then have "accounted (finalize k s1)" by (rule accounted_finalize)
  moreover have "s' = finalize k s1"
    using assms(2) Seeked unfolding s1_def by (auto simp: on_seeked_finalize split: if_splits)
  ultimately show ?thesis by simp
next
  case (Error k)
  then show ?thesis using assms accounted_finalize by (auto split: if_splits)
next
  case (Timeout k)
  then show ?thesis using assms accounted_finalize by (auto split: if_splits)
next
  case (OpenPlayer f)
  then show ?thesis using assms unfolding accounted_def
    by (auto simp: trackObjectURL_def Set_add_def Let_def less_Suc_eq)
next
  case (ClosePlayer u)
  show ?thesis using assms(1)
    by (rule accounted_cong)
      (use assms(2) ClosePlayer in \<open>auto simp: revokeTrackedURL_def split: if_splits\<close>)
qed

lemma accounted_run: "accounted s \<Longrightarrow> run as s = Some s' \<Longrightarrow> accounted s'"
proof (induction as arbitrary: s)
  case Nil
  then show ?case by simp
next
  case (Cons a as)
  then show ?case by (auto split: option.splits dest: accounted_step)
qed

lemma accounted_page_load: "accounted (page_load d)"
  by (simp add: accounted_def page_load_def)

lemma sample_run: "run sample_schedule sample_pass = Some sample_done"
proof -
  have "\<not> Option.is_none (run sample_schedule sample_pass)" by code_simp
  then show ?thesis by (auto simp: sample_done_def Option.is_none_def)
qed

lemma sample_late_run: "run late_schedule sample_pass = Some sample_late"
proof -
  have "\<not> Option.is_none (run late_schedule sample_pass)" by code_simp
  then show ?thesis by (auto simp: sample_late_def Option.is_none_def)
qed

lemma player_run: "run player_schedule sample_pass = Some player_done"
proof -
  have "\<not> Option.is_none (run player_schedule sample_pass)" by code_simp
  then show ?thesis by (auto simp: player_done_def Option.is_none_def)
qed

subsection \<open>What becomes of the URL of an item\<close>

lemma finalize_revoked:
  "\<not> call_done (calls s ! k) \<Longrightarrow>
     revoked (finalize k s)
       = revoked s @ (case url (items s ! call_item (calls s ! k)) of None \<Rightarrow> [] | Some v \<Rightarrow> [v])"
  by (simp add: finalize_def Let_def cleanupItem_def revokeTrackedURL_def split: option.split)

lemma finalize_tracked:
  "\<not> call_done (calls s ! k) \<Longrightarrow>
     set (objectURLs (finalize k s))
       = (case url (items s ! call_item (calls s ! k)) of
            None \<Rightarrow> set (objectURLs s) | Some v \<Rightarrow> set (objectURLs s) - {v})"
  by (simp add: finalize_def Let_def cleanupItem_objectURLs split: option.split)

lemma url_invD:
  assumes "url_inv S k u s"
  shows "length (items s) = length (items S)"
    and "\<And>i. i < length (items S) \<Longrightarrow>
          url (items s ! i)
            = (if i < length (calls s) \<and> call_done (calls s ! i) then None else url (items S ! i))"
    and "count_list (revoked s) u
          = count_list (revoked S) u + (if k < length (calls s) \<and> call_done (calls s ! k) then 1 else 0)"
    and "u \<in> set (objectURLs s)
          \<longleftrightarrow> u \<in> set (objectURLs S) \<and> \<not> (k < length (calls s) \<and> call_done (calls s ! k))"
    and "u < next_url s" and "u \<notin> set (players s)"
  using assms unfolding url_inv_def by blast+

lemma url_inv_start:
  "calls S = [] \<Longrightarrow> u < next_url S \<Longrightarrow> u \<notin> set (players S) \<Longrightarrow> url_inv S k u S"
  by (simp add: url_inv_def)

text \<open>A step that finalizes no call, revokes no URL of an item and tracks none of them.\<close>

lemma url_inv_quiet:
  assumes "url_inv S k u s"
    and "length (items t) = length (items s)"
    and "\<And>i. url (items t ! i) = url (items s ! i)"
    and "\<And>j. (j < length (calls t) \<and> call_done (calls t ! j))
           \<longleftrightarrow> (j < length (calls s) \<and> call_done (calls s ! j))"
    and "count_list (revoked t) u = count_list (revoked s) u"
    and "u \<in> set (objectURLs t) \<longleftrightarrow> u \<in> set (objectURLs s)"
    and "next_url s \<le> next_url t" and "u \<notin> set (players t)"
  shows "url_inv S k u t"
proof -
  note d = url_invD[OF assms(1)]
  have 1: "length (items t) = length (items S)" using d(1) assms(2) by simp
  have 2: "url (items t ! i)
      = (if i < length (calls t) \<and> call_done (calls t ! i) then None else url (items S ! i))"
    if "i < length (items S)" for i
    using d(2)[OF that] assms(3)[of i] assms(4)[of i] by simp
  have 3: "count_list (revoked t) u
      = count_list (revoked S) u + (if k < length (calls t) \<and> call_done (calls t ! k) then 1 else 0)"
    using d(3) assms(5) assms(4)[of k] by simp
  have 4: "u \<in> set (objectURLs t)
      \<longleftrightarrow> u \<in> set (objectURLs S) \<and> \<not> (k < length (calls t) \<and> call_done (calls t ! k))"
    using d(4) assms(6) assms(4)[of k] by simp
  have 5: "u < next_url t" using d(5) assms(7) by simp
  show ?thesis unfolding url_inv_def using 1 2 3 4 5 assms(8) by blast
qed

lemma url_inv_finalize:
  assumes "sched_inv s" "url_inv S k u s" "url (items S ! k) = Some u"
    and "\<forall>i<length (items S). url (items S ! i) = Some u \<longrightarrow> i = k"
    and "j < length (calls s)"
  shows "url_inv S k u (finalize j s)"
proof (cases "call_done (calls s ! j)")
  case True
  then show ?thesis using assms(2) by (simp add: finalize_done)
next
  case False
  note d = sched_invD[OF assms(1)]
  note e = url_invD[OF assms(2)]
  have ci: "call_item (calls s ! j) = j" using d(4)[OF assms(5)] .
  have jN: "j < length (items s)" using assms(5) d(1,3) by simp
  then have jS: "j < length (items S)" using e(1) by simp
  have uj: "url (items s ! j) = url (items S ! j)" using e(2)[OF jS] False by simp
  have jk: "url (items S ! j) = Some u \<longleftrightarrow> j = k" using assms(3,4) jS by blast
  have dn: "(i < length (calls (finalize j s)) \<and> call_done (calls (finalize j s) ! i))
      \<longleftrightarrow> i = j \<or> (i < length (calls s) \<and> call_done (calls s ! i))" for i
    using assms(5) False by (auto simp: finalize_call)
  have urls: "url (items (finalize j s) ! i) = (if i = j then None else url (items s ! i))" for i
    using finalize_url[OF assms(5), of i] ci jN False by simp
  have rv: "revoked (finalize j s)
      = revoked s @ (case url (items S ! j) of None \<Rightarrow> [] | Some v \<Rightarrow> [v])"
    using finalize_revoked[OF False] ci uj by simp
  have tr: "set (objectURLs (finalize j s))
      = (case url (items S ! j) of None \<Rightarrow> set (objectURLs s) | Some v \<Rightarrow> set (objectURLs s) - {v})"
    using finalize_tracked[OF False] ci uj by simp
  have 1: "length (items (finalize j s)) = length (items S)" using e(1) by simp
  have 2: "url (items (finalize j s) ! i)
      = (if i < length (calls (finalize j s)) \<and> call_done (calls (finalize j s) ! i)
         then None else url (items S ! i))"
    if "i < length (items S)" for i
    using e(2)[OF that] by (simp only: dn urls) auto
  define D where "D = (k < length (calls s) \<and> call_done (calls s ! k))"
  define D' where
    "D' = (k < length (calls (finalize j s)) \<and> call_done (calls (finalize j s) ! k))"
  have dk: "D' \<longleftrightarrow> k = j \<or> D" unfolding D_def D'_def by (rule dn)
  have e3: "count_list (revoked s) u = count_list (revoked S) u + (if D then 1 else 0)"
    unfolding D_def by (rule e(3))
  have e4: "u \<in> set (objectURLs s) \<longleftrightarrow> u \<in> set (objectURLs S) \<and> \<not> D"
    unfolding D_def by (rule e(4))
  have 3: "count_list (revoked (finalize j s)) u
      = count_list (revoked S) u + (if D' then 1 else 0)"
  proof (cases "j = k")
    case True
    then have "url (items S ! j) = Some u" using jk by simp
    then have "count_list (revoked (finalize j s)) u = count_list (revoked s) u + 1"
      by (simp add: rv)
    moreover have "\<not> D" using True False by (simp add: D_def)
    moreover have "D'" using True dk by simp
    ultimately show ?thesis using e3 by simp
  next
    case False
    then have "url (items S ! j) \<noteq> Some u" using jk by simp
    then have "count_list (revoked (finalize j s)) u = count_list (revoked s) u"
      by (simp add: rv split: option.split)
    moreover have "D' \<longleftrightarrow> D" using False dk by auto
    ultimately show ?thesis using e3 by simp
  qed
  have 4: "u \<in> set (objectURLs (finalize j s)) \<longleftrightarrow> u \<in> set (objectURLs S) \<and> \<not> D'"
  proof (cases "j = k")
    case True
    then have "url (items S ! j) = Some u" using jk by simp
    then have "u \<notin> set (objectURLs (finalize j s))" by (simp add: tr)
    moreover have "D'" using True dk by simp
    ultimately show ?thesis by simp
  next
    case False
    then have "url (items S ! j) \<noteq> Some u" using jk by simp
    then have "u \<in> set (objectURLs (finalize j s)) \<longleftrightarrow> u \<in> set (objectURLs s)"
      by (auto simp: tr split: option.split)
    moreover have "D' \<longleftrightarrow> D" using False dk by auto
    ultimately show ?thesis using e4 by simp
  qed
  have 5: "u < next_url (finalize j s)" "u \<notin> set (players (finalize j s))"
    using e(5,6) by simp_all
  show ?thesis unfolding url_inv_def
    using 1 2 3 [unfolded D'_def] 4 [unfolded D'_def] 5 by blast
qed

lemma url_inv_step:
  assumes "sched_inv s" "url_inv S k u s" "url (items S ! k) = Some u"
    and "\<forall>i<length (items S). url (items S ! i) = Some u \<longrightarrow> i = k"
    and "step a s = Some s'"
  shows "url_inv S k u s'"
proof (cases a)
  case (Loop w)
  have dn: "(j < length (calls s') \<and> call_done (calls s' ! j))
      \<longleftrightarrow> (j < length (calls s) \<and> call_done (calls s ! j))" for j
    using step_done_iff[OF assms(5), of j] by (simp add: Loop)
  have fr: "items s' = items s" "revoked s' = revoked s" "objectURLs s' = objectURLs s"
    "next_url s' = next_url s" "players s' = players s"
    using assms(5) Loop by (auto split: if_splits)
  show ?thesis using assms(2)
    by (rule url_inv_quiet) (simp_all add: dn fr url_invD(6)[OF assms(2)])
next
  case (Resume w)
  have dn: "(j < length (calls s') \<and> call_done (calls s' ! j))
      \<longleftrightarrow> (j < length (calls s) \<and> call_done (calls s ! j))" for j
    using step_done_iff[OF assms(5), of j] by (simp add: Resume)
  have fr: "items s' = items s" "revoked s' = revoked s" "objectURLs s' = objectURLs s"
    "next_url s' = next_url s" "players s' = players s"
    using assms(5) Resume by (auto split: if_splits worker.splits)
  show ?thesis using assms(2)
    by (rule url_inv_quiet) (simp_all add: dn fr url_invD(6)[OF assms(2)])
next
  case (LoadedMetadata j d)
  have dn: "(i < length (calls s') \<and> call_done (calls s' ! i))
      \<longleftrightarrow> (i < length (calls s) \<and> call_done (calls s ! i))" for i
    using step_done_iff[OF assms(5), of i] by (simp add: LoadedMetadata)
  have s': "s' = on_loadedmetadata j d s" using assms(5) LoadedMetadata by (auto split: if_splits)
  have fr: "length (items s') = length (items s)" "\<And>i. url (items s' ! i) = url (items s ! i)"
    "revoked s' = revoked s" "objectURLs s' = objectURLs s"
    "next_url s' = next_url s" "players s' = players s"
    by (simp_all add: s' on_loadedmetadata_url)
  show ?thesis using assms(2)
    by (rule url_inv_quiet) (simp_all add: dn fr url_invD(6)[OF assms(2)])
next
  case (Seeked j data)
  define s1 where "s1 = (case data of None \<Rightarrow> s
     | Some t \<Rightarrow> s\<lparr>items := (items s)[call_item (calls s ! j)
                      := (items s ! call_item (calls s ! j))\<lparr>thumb := Some t\<rparr>]\<rparr>)"
  from assms(5) Seeked have j: "j < length (calls s)" and s': "s' = on_seeked j data s"
    by (auto split: if_splits)
  have u: "url (items s1 ! i) = url (items s ! i)" for i
    unfolding s1_def
    by (cases "call_item (calls s ! j) < length (items s)")
      (simp_all add: nth_list_update list_update_beyond split: option.split)
  have c: "calls s1 = calls s" "objectURLs s1 = objectURLs s"
    "length (items s1) = length (items s)" "total s1 = total s" "idx s1 = idx s"
    "workers s1 = workers s" "done_count s1 = done_count s" "players s1 = players s"
    "revoked s1 = revoked s" "next_url s1 = next_url s"
    unfolding s1_def by (simp_all split: option.split)
  have 1: "url_inv S k u s1" using assms(2)
    by (rule url_inv_quiet) (simp_all add: c u url_invD(6)[OF assms(2)])
  have 2: "sched_inv s1" using assms(1)
    by (rule sched_inv_cong) (simp_all add: c)
  have 3: "j < length (calls s1)" using j by (simp add: c)
  have "url_inv S k u (finalize j s1)" using 2 1 assms(3,4) 3 by (rule url_inv_finalize)
  then show ?thesis unfolding s' on_seeked_finalize s1_def .
next
  case (Error j)
  then have "j < length (calls s)" "s' = finalize j s" using assms(5) by (auto split: if_splits)
  then show ?thesis using url_inv_finalize[OF assms(1-4)] by simp
next
  case (Timeout j)
  then have "j < length (calls s)" "s' = finalize j s" using assms(5) by (auto split: if_splits)
  then show ?thesis using url_inv_finalize[OF assms(1-4)] by simp
next
  case (OpenPlayer f)
  note d = url_invD[OF assms(2)]
  have dn: "(j < length (calls s') \<and> call_done (calls s' ! j))
      \<longleftrightarrow> (j < length (calls s) \<and> call_done (calls s ! j))" for j
    using step_done_iff[OF assms(5), of j] by (simp add: OpenPlayer)
  have fr: "items s' = items s" "revoked s' = revoked s"
    "objectURLs s' = Set_add (objectURLs s) (next_url s)"
    "next_url s' = next_url s + 1" "players s' = players s @ [next_url s]"
    using assms(5) OpenPlayer by (auto simp: trackObjectURL_def Let_def)
  have ne: "u \<noteq> next_url s" using d(5) by simp
  show ?thesis using assms(2)
    by (rule url_inv_quiet) (use ne d(6) in \<open>simp_all add: dn fr Set_add_def\<close>)
next
  case (ClosePlayer p)
  note d = url_invD[OF assms(2)]
  have dn: "(j < length (calls s') \<and> call_done (calls s' ! j))
      \<longleftrightarrow> (j < length (calls s) \<and> call_done (calls s ! j))" for j
    using step_done_iff[OF assms(5), of j] by (simp add: ClosePlayer)
  have p: "p \<in> set (players s)" using assms(5) ClosePlayer by (auto split: if_splits)
  have fr: "items s' = items s" "revoked s' = revoked s @ [p]"
    "objectURLs s' = filter (\<lambda>x. x \<noteq> p) (objectURLs s)"
    "next_url s' = next_url s" "players s' = removeAll p (players s)"
    using assms(5) ClosePlayer by (auto simp: revokeTrackedURL_def split: if_splits)
  have ne: "u \<noteq> p" using d(6) p by auto
  show ?thesis using assms(2)
    by (rule url_inv_quiet) (use ne d(6) in \<open>simp_all add: dn fr\<close>)
qed

lemma url_inv_run:
  assumes "url (items S ! k) = Some u"
    and "\<forall>i<length (items S). url (items S ! i) = Some u \<longrightarrow> i = k"
  shows "sched_inv s \<Longrightarrow> url_inv S k u s \<Longrightarrow> run as s = Some s' \<Longrightarrow> url_inv S k u s'"
proof (induction as arbitrary: s)
  case Nil
  then show ?case by simp
next
  case (Cons a as)
  then obtain s1 where 1: "step a s = Some s1" and 2: "run as s1 = Some s'"
    by (auto split: option.splits)
  show ?case
    using Cons.IH[OF sched_inv_step[OF Cons.prems(1) 1]
        url_inv_step[OF Cons.prems(1,2) assms 1] 2] .
qed

text \<open>
  When a pass after a scan is over, no item has a URL, and what is still tracked are URLs
  of players.
\<close>

lemma registry_after_pass:
  assumes "run as (enrichAll_start (scan_files fs s0)) = Some s" "all_exited s"
  shows "\<And>i. i < length (items s) \<Longrightarrow> url (items s ! i) = None"
    and "set (objectURLs s) \<subseteq> set (players s)"
proof -
  have inv: "sched_inv (enrichAll_start (scan_files fs s0))" by (rule sched_inv_start)
  have reg: "reg_inv s" using inv reg_inv_scan assms(1) by (rule reg_inv_run)
  note p = pass_complete[OF assms]
  show none: "url (items s ! i) = None" if "i < length (items s)" for i
    using that reg_invD(2)[OF reg, of i] p(2,4) p(5)[of i] by simp
  show "set (objectURLs s) \<subseteq> set (players s)"
  proof
    fix u assume "u \<in> set (objectURLs s)"
    from reg_invD(1)[OF reg this] show "u \<in> set (players s)" using none by auto
  qed
qed

section \<open>The claims about the enrichment pass\<close>

text \<open>
  Claim C1, corrected. In every course of a pass and for every call of \<open>enrichOne\<close>,
  the flag \<open>done\<close> is set if and only if the timeout, \<open>seeked\<close> or \<open>error\<close> has come
  for that call, however many of them and in whatever order; the removal of the video
  element and the resolution of the promise have then each run once, and not at all
  otherwise. If the item had an object URL of its own when the pass started, then once
  one of the three has come the item has no URL, the URL is tracked no more, and
  \<open>URL.revokeObjectURL\<close> has been called with it exactly once more than before the
  pass; before that the item keeps its URL, which is revoked no further and is tracked if
  it was. A timeout or an error that comes later leaves the whole state as it is. A
  \<open>seeked\<close> that comes later is not without effect: it stores the frame it captured,
  if any, as the thumbnail of the item, and does nothing else. When the pass is over,
  one of the three has come for every call.
\<close>

theorem finalize_runs_once:
  "run as (enrichAll_start s0) = Some s \<Longrightarrow> k < length (calls s) \<Longrightarrow>
     call_item (calls s ! k) = k
     \<and> (call_done (calls s ! k) \<longleftrightarrow> (\<exists>a\<in>set as. triggers k a))
     \<and> removed (calls s ! k) = (if \<exists>a\<in>set as. triggers k a then 1 else 0)
     \<and> resolved (calls s ! k) = (if \<exists>a\<in>set as. triggers k a then 1 else 0)
     \<and> (\<forall>u. url (items s0 ! k) = Some u
              \<and> (\<forall>i<length (items s0). url (items s0 ! i) = Some u \<longrightarrow> i = k)
              \<and> u < next_url s0 \<and> u \<notin> set (players s0) \<longrightarrow>
            url (items s ! k) = (if \<exists>a\<in>set as. triggers k a then None else Some u)
            \<and> count_list (revoked s) u
                = count_list (revoked s0) u + (if \<exists>a\<in>set as. triggers k a then 1 else 0)
            \<and> (u \<in> set (objectURLs s)
                 \<longleftrightarrow> u \<in> set (objectURLs s0) \<and> \<not> (\<exists>a\<in>set as. triggers k a)))
     \<and> ((\<exists>a\<in>set as. triggers k a) \<longrightarrow>
          finalize k s = s \<and> step (Timeout k) s = Some s \<and> step (Error k) s = Some s
          \<and> on_seeked k None s = s
          \<and> on_seeked k (Some t) s
              = s\<lparr>items := (items s)[k := (items s ! k)\<lparr>thumb := Some t\<rparr>]\<rparr>)
     \<and> (all_exited s \<longrightarrow> (\<exists>a\<in>set as. triggers k a))"
proof -
  assume r: "run as (enrichAll_start s0) = Some s" and k: "k < length (calls s)"
  let ?S = "enrichAll_start s0"
  have inv: "sched_inv s" using sched_inv_start r by (rule sched_inv_run)
  note sd = sched_invD[OF inv]
  have ci: "call_item (calls s ! k) = k" using sd(4)[OF k] .
  have "calls ?S = []" by (simp add: enrichAll_start_def)
  then have d: "call_done (calls s ! k) \<longleftrightarrow> (\<exists>a\<in>set as. triggers k a)"
    using run_done_iff[OF r, of k] k by simp
  have c: "removed (calls s ! k) = (if call_done (calls s ! k) then 1 else 0)
      \<and> resolved (calls s ! k) = (if call_done (calls s ! k) then 1 else 0)"
    using sd(5)[OF k] by simp
  have f: "finalize k s = s" if "call_done (calls s ! k)"
    using that by (rule finalize_done)
  have e: "call_done (calls s ! k)" if "all_exited s"
    using pass_complete(2,5)[OF r that] k by simp
  have g: "on_seeked k (Some t) s = s\<lparr>items := (items s)[k := (items s ! k)\<lparr>thumb := Some t\<rparr>]\<rparr>"
    if "call_done (calls s ! k)"
    using that ci by (simp add: on_seeked_finalize finalize_done)
  have h: "on_seeked k None s = s" if "call_done (calls s ! k)"
    using that by (simp add: on_seeked_finalize finalize_done)
  have urls: "url (items s ! k) = (if call_done (calls s ! k) then None else Some u)
      \<and> count_list (revoked s) u
          = count_list (revoked s0) u + (if call_done (calls s ! k) then 1 else 0)
      \<and> (u \<in> set (objectURLs s) \<longleftrightarrow> u \<in> set (objectURLs s0) \<and> \<not> call_done (calls s ! k))"
    if u: "url (items s0 ! k) = Some u"
      "\<forall>i<length (items s0). url (items s0 ! i) = Some u \<longrightarrow> i = k"
      "u < next_url s0" "u \<notin> set (players s0)" for u
  proof -
    have 0: "url_inv ?S k u ?S"
      by (rule url_inv_start) (use u(3,4) in \<open>simp_all add: enrichAll_start_def\<close>)
    have 1: "url (items ?S ! k) = Some u" using u(1) by (simp add: enrichAll_start_def)
    have 2: "\<forall>i<length (items ?S). url (items ?S ! i) = Some u \<longrightarrow> i = k"
      using u(2) by (simp add: enrichAll_start_def)
    have "url_inv ?S k u s" using url_inv_run[OF 1 2 sched_inv_start 0 r] .
    note v = url_invD[OF this]
    have kN: "k < length (items ?S)" using k sd(1,3) v(1) by simp
    show ?thesis using v(2)[OF kN] v(3) v(4) k 1 by (simp add: enrichAll_start_def)
  qed
  have 1: "removed (calls s ! k) = (if \<exists>a\<in>set as. triggers k a then 1 else 0)"
    "resolved (calls s ! k) = (if \<exists>a\<in>set as. triggers k a then 1 else 0)"
    using c unfolding d by simp_all
  have 2: "\<forall>u. url (items s0 ! k) = Some u
              \<and> (\<forall>i<length (items s0). url (items s0 ! i) = Some u \<longrightarrow> i = k)
              \<and> u < next_url s0 \<and> u \<notin> set (players s0) \<longrightarrow>
            url (items s ! k) = (if \<exists>a\<in>set as. triggers k a then None else Some u)
            \<and> count_list (revoked s) u
                = count_list (revoked s0) u + (if \<exists>a\<in>set as. triggers k a then 1 else 0)
            \<and> (u \<in> set (objectURLs s)
                 \<longleftrightarrow> u \<in> set (objectURLs s0) \<and> \<not> (\<exists>a\<in>set as. triggers k a))"
    using urls unfolding d by blast
  have 3: "(\<exists>a\<in>set as. triggers k a) \<longrightarrow>
          finalize k s = s \<and> step (Timeout k) s = Some s \<and> step (Error k) s = Some s
          \<and> on_seeked k None s = s
          \<and> on_seeked k (Some t) s
              = s\<lparr>items := (items s)[k := (items s ! k)\<lparr>thumb := Some t\<rparr>]\<rparr>"
    using f g h k unfolding d by simp
  have 4: "all_exited s \<longrightarrow> (\<exists>a\<in>set as. triggers k a)" using e unfolding d by simp
  show ?thesis using ci d 1 2 3 4 by blast
qed

theorem finalize_runs_once_witness:
  "run sample_schedule sample_pass = Some sample_done
   \<and> 0 < length (calls sample_done)
   \<and> Seeked 0 (Some ''jpeg'') \<in> set sample_schedule \<and> triggers 0 (Seeked 0 (Some ''jpeg''))
   \<and> Timeout 0 \<in> set sample_schedule \<and> triggers 0 (Timeout 0)
   \<and> map url (items sample_pass) = [Some 0, Some 1, Some 2, Some 3]
   \<and> next_url sample_pass = 4 \<and> players sample_pass = []
   \<and> objectURLs sample_pass = [0, 1, 2, 3] \<and> revoked sample_pass = []
   \<and> call_done (calls sample_done ! 0)
   \<and> removed (calls sample_done ! 0) = 1 \<and> resolved (calls sample_done ! 0) = 1
   \<and> url (items sample_done ! 0) = None
   \<and> count_list (revoked sample_done) 0 = 1
   \<and> 0 \<notin> set (objectURLs sample_done)
   \<and> step (Timeout 0) sample_done = Some sample_done
   \<and> all_exited sample_done"
proof -
  let ?s0 = "scan_files sample_files (page_load (\<lambda>p. None))"
  have r0: "run sample_schedule sample_pass = Some sample_done" by (rule sample_run)
  then have r: "run sample_schedule (enrichAll_start ?s0) = Some sample_done"
    by (simp add: sample_pass_def)
  have l: "0 < length (calls sample_done)" by code_simp
  have t: "Seeked 0 (Some ''jpeg'') \<in> set sample_schedule" "Timeout 0 \<in> set sample_schedule"
    by (simp_all add: sample_schedule_def)
  then have ex: "\<exists>a\<in>set sample_schedule. triggers 0 a" by (intro bexI[of _ "Timeout 0"]) simp_all
  have e: "all_exited sample_done" by code_simp
  have m: "map url (items sample_pass) = [Some 0, Some 1, Some 2, Some 3]" by code_simp
  have n: "next_url sample_pass = 4" "players sample_pass = []"
    "objectURLs sample_pass = [0, 1, 2, 3]" "revoked sample_pass = []"
    by code_simp+
  have f: "items ?s0 = items sample_pass" "next_url ?s0 = next_url sample_pass"
    "players ?s0 = players sample_pass" "objectURLs ?s0 = objectURLs sample_pass"
    "revoked ?s0 = revoked sample_pass"
    by (simp_all add: sample_pass_def enrichAll_start_def)
  have len: "length (items sample_pass) = 4" using arg_cong[OF m, of length] by simp
  have nth: "url (items sample_pass ! i) = [Some 0, Some 1, Some 2, Some 3] ! i" if "i < 4" for i
    using that len arg_cong[OF m, of "\<lambda>xs. xs ! i"] by simp
  have u0: "url (items ?s0 ! 0) = Some 0" using nth[of 0] by (simp add: f)
  have un: "\<forall>i<length (items ?s0). url (items ?s0 ! i) = Some 0 \<longrightarrow> i = 0"
  proof (intro allI impI)
    fix i assume "i < length (items ?s0)" "url (items ?s0 ! i) = Some 0"
    then have "i < 4" "[Some 0, Some 1, Some 2, Some (3::nat)] ! i = Some 0"
      using nth[of i] len by (simp_all add: f)
    then show "i = 0" by (auto simp: nth_Cons' split: if_splits)
  qed
  have h: "url (items ?s0 ! 0) = Some 0
      \<and> (\<forall>i<length (items ?s0). url (items ?s0 ! i) = Some 0 \<longrightarrow> i = 0)
      \<and> 0 < next_url ?s0 \<and> 0 \<notin> set (players ?s0)"
    using u0 un n by (simp add: f)
  from finalize_runs_once [OF r l, of _] ex e h
  have "call_done (calls sample_done ! 0)"
    and "removed (calls sample_done ! 0) = 1" and "resolved (calls sample_done ! 0) = 1"
    and "url (items sample_done ! 0) = None"
    and "count_list (revoked sample_done) 0 = count_list (revoked ?s0) 0 + 1"
    and "0 \<notin> set (objectURLs sample_done)"
    and "step (Timeout 0) sample_done = Some sample_done"
    by (simp_all add: f n)
  then show ?thesis using r0 l t e m n by (simp add: f)
qed

text \<open>
  The claim as the specification states it, that the losing triggers are no-ops, fails:
  the first call of the sample pass has timed out, and the \<open>seeked\<close> that comes
  afterwards gives the item a thumbnail.
\<close>

theorem late_seeked_counterexample:
  "run late_schedule sample_pass = Some sample_late
   \<and> late_schedule = [Loop 0, LoadedMetadata 0 (Num 8), Timeout 0]
   \<and> call_done (calls sample_late ! 0) \<and> thumb (items sample_late ! 0) = None
   \<and> step (Seeked 0 (Some ''late'')) sample_late
       = Some (on_seeked 0 (Some ''late'') sample_late)
   \<and> thumb (items (on_seeked 0 (Some ''late'') sample_late) ! 0) = Some ''late''
   \<and> on_seeked 0 (Some ''late'') sample_late \<noteq> sample_late"
proof -
  have 1: "call_done (calls sample_late ! 0)" "thumb (items sample_late ! 0) = None"
    "0 < length (calls sample_late) \<and> currentTime (calls sample_late ! 0) \<noteq> None"
    by code_simp+
  have 2: "thumb (items (on_seeked 0 (Some ''late'') sample_late) ! 0) = Some ''late''"
    by code_simp
  have 3: "on_seeked 0 (Some ''late'') sample_late \<noteq> sample_late" using 1(2) 2 by auto
  show ?thesis using sample_late_run 1 2 3 by (simp add: late_schedule_def)
qed

text \<open>
  Claim C2, which the code does not meet. \<open>enrichAll\<close> ends with the assertion that
  \<open>objectURLs\<close> is empty, but \<open>openPlayer\<close> tracks the URL of its video in the same
  set and the page stays live while the workers are suspended. In the sample pass the
  user opens a player while the first three calls are under way and leaves it open: the
  three workers leave their loops with the URL of the player still tracked, so the
  assertion fires. Every URL of an item has been released by then (lemma
  \<open>registry_after_pass\<close>).
\<close>

theorem player_url_tracked_after_pass:
  "run player_schedule sample_pass = Some player_done
   \<and> OpenPlayer 10 \<in> set player_schedule
   \<and> all_exited player_done
   \<and> objectURLs player_done = [4] \<and> players player_done = [4]
   \<and> length (objectURLs player_done) \<noteq> 0
   \<and> map url (items player_done) = [None, None, None, None]"
proof -
  have "all_exited player_done" "objectURLs player_done = [4]" "players player_done = [4]"
    "map url (items player_done) = [None, None, None, None]"
    by code_simp+
  then show ?thesis using player_run by (simp add: player_schedule_def)
qed

text \<open>
  Claim C3. With the three workers sharing the cursor, in every course of a pass over a
  catalog of \<open>N\<close> items the calls of \<open>enrichOne\<close> made so far are those for the items
  before the cursor, one each and in order, and the progress texts written so far count
  1, 2, 3 and so on up to the number of calls the workers have returned from. When the
  pass is over the cursor is at \<open>N\<close>: every item has had its one call, which is done, and
  the texts have counted from 1 to \<open>N\<close>. However far a pass has gone, it can go on to
  its end.
\<close>

theorem each_item_processed_once:
  "run as (enrichAll_start s0) = Some s \<Longrightarrow>
     length (workers s) = 3
     \<and> map call_item (calls s) = [0..<idx s] \<and> idx s \<le> length (items s0)
     \<and> done_count s \<le> idx s
     \<and> loading s = loading s0 @ map (\<lambda>j. Processing (Suc j) (length (items s0))) [0..<done_count s]
     \<and> (all_exited s \<longrightarrow>
          map call_item (calls s) = [0..<length (items s0)]
          \<and> (\<forall>k<length (items s0). call_done (calls s ! k) \<and> cleanups (calls s ! k) = 1)
          \<and> loading s = loading s0
               @ map (\<lambda>j. Processing (Suc j) (length (items s0))) [0..<length (items s0)])
     \<and> (\<exists>bs t. run (as @ bs) (enrichAll_start s0) = Some t \<and> all_exited t)"
proof -
  assume r: "run as (enrichAll_start s0) = Some s"
  have inv: "sched_inv s" using sched_inv_start r by (rule sched_inv_run)
  note d = sched_invD[OF inv]
  have fr: "length (items s) = length (items s0)" "length (workers s) = 3"
    using run_frame[OF r] by (simp_all add: enrichAll_start_def concurrency_def)
  have m: "map call_item (calls s) = [0..<idx s]"
    using d(3) d(4) by (intro nth_equalityI) simp_all
  have i: "idx s \<le> length (items s0)" using d(1) fr by simp
  have dc: "done_count s \<le> idx s" using d(7) by simp
  have lo: "loading s = loading s0
      @ map (\<lambda>j. Processing (Suc j) (length (items s0))) [0..<done_count s]"
    using run_loading[OF r] by (simp add: enrichAll_start_def)
  have fin: "map call_item (calls s) = [0..<length (items s0)]
      \<and> (\<forall>k<length (items s0). call_done (calls s ! k) \<and> cleanups (calls s ! k) = 1)
      \<and> loading s = loading s0
           @ map (\<lambda>j. Processing (Suc j) (length (items s0))) [0..<length (items s0)]"
    if e: "all_exited s"
  proof -
    note p = pass_complete[OF r e]
    have "cleanups (calls s ! k) = 1" if "k < length (items s0)" for k
      using d(5)[of k] p(2) p(5)[OF that] that by simp
    then show ?thesis using m lo p by simp
  qed
  obtain bs t where "run bs s = Some t" "all_exited t"
    using pass_can_complete[OF inv] by blast
  then have "\<exists>bs t. run (as @ bs) (enrichAll_start s0) = Some t \<and> all_exited t"
    using r by (auto simp: run_append)
  then show ?thesis using fr(2) m i dc lo fin by blast
qed

theorem each_item_processed_once_witness:
  "run sample_schedule (enrichAll_start (scan_files sample_files (page_load (\<lambda>p. None))))
     = Some sample_done
   \<and> all_exited sample_done
   \<and> length (items (scan_files sample_files (page_load (\<lambda>p. None)))) = 4
   \<and> map call_item (calls sample_done) = [0, 1, 2, 3]
   \<and> loading sample_done
       = [Scanning, Processing 0 4, Processing 1 4, Processing 2 4, Processing 3 4, Processing 4 4]"
proof -
  have r: "run sample_schedule (enrichAll_start (scan_files sample_files (page_load (\<lambda>p. None))))
     = Some sample_done"
    using sample_run by (simp add: sample_pass_def)
  have e: "all_exited sample_done" by code_simp
  have n: "length (items (scan_files sample_files (page_load (\<lambda>p. None)))) = 4" by code_simp
  have l: "loading (scan_files sample_files (page_load (\<lambda>p. None))) = [Scanning, Processing 0 4]"
    by code_simp
  have u: "[0..<4] = [0, 1, 2, 3]" by (simp add: upt_rec)
  from each_item_processed_once [OF r] e
  have "map call_item (calls sample_done)
      = [0..<length (items (scan_files sample_files (page_load (\<lambda>p. None))))]"
    and "loading sample_done = loading (scan_files sample_files (page_load (\<lambda>p. None)))
      @ map (\<lambda>j. Processing (Suc j) (length (items (scan_files sample_files (page_load (\<lambda>p. None))))))
          [0..<length (items (scan_files sample_files (page_load (\<lambda>p. None))))]"
    by blast+
  then have "map call_item (calls sample_done) = [0, 1, 2, 3]"
    and "loading sample_done
       = [Scanning, Processing 0 4, Processing 1 4, Processing 2 4, Processing 3 4, Processing 4 4]"
    unfolding n l u by simp_all
  then show ?thesis using r e n by simp
qed

end
